theory Spec2Isabelle
  imports Complex_Main "HOL-Library.AList"
begin

section \<open>NPC voice pipeline: worker boundary, voice manager, playback scheduler\<close>

text \<open>
  The development embeds two source units: the text-to-speech worker
  (\<^verbatim>\<open>tts-worker.ts\<close>) and the class \<^verbatim>\<open>NPCVoiceManager\<close>.

  Conventions of the embedding.
  \<^item> JavaScript numbers that hold counts (request ids, sample counts, sample rates) are
    natural numbers, which agree with the numbers of the code below \<open>2 ^ 53\<close>. The quotient
    \<^verbatim>\<open>audio.length / sampleRate\<close> is the binary64 division of the language: a finite value
    is a rational, the non-finite results are written out.
  \<^item> An \<^verbatim>\<open>async\<close> function is split at its \<^verbatim>\<open>await\<close>: one definition for the part that runs
    synchronously at the call, one for the continuation that runs when the awaited promise
    settles. Promises are heap objects named by their allocation index.
  \<^item> A thrown exception is the left summand of a sum type; \<^verbatim>\<open>try/catch\<close> is a case
    distinction on it.
  \<^item> The platform (worker transport, audio device, console) is explicit state: the posted
    messages and console warnings are an effect list, the audio device is the list of source
    nodes that were started, each with its playback status. Constructing the worker and the
    audio context succeeds.
\<close>

subsection \<open>Values\<close>

datatype exn = Error string | NotSupportedError | InvalidStateError | TypeError

datatype jsnum = Val rat | Infinity | NaN

text \<open>
  \<^verbatim>\<open>a / b\<close> on two numbers that hold non-negative integers is the IEEE 754 binary64
  quotient: the exact quotient rounded to the nearest value with a 53-bit significand, ties
  to the even significand, with gradual underflow below \<open>2 ^ - 1022\<close> and overflow to
  Infinity from \<open>2 ^ 1024\<close> on; \<^verbatim>\<open>0 / 0\<close> is NaN and \<^verbatim>\<open>a / 0\<close> is Infinity. The value is
  computed with integer arithmetic: \<open>quot_exponent a b\<close> is the exponent of the quotient (the
  \<open>e\<close> with \<open>2 ^ e \<le> a / b < 2 ^ (e + 1)\<close>), the significand is the quotient scaled by
  \<open>2 ^ (52 - e)\<close> and rounded half to even.
\<close>

definition pow2 :: "int \<Rightarrow> rat" where
  "pow2 k = (if 0 \<le> k then 2 ^ nat k else 1 / 2 ^ nat (- k))"

definition round_half_even :: "nat \<Rightarrow> nat \<Rightarrow> nat" where
  "round_half_even n d =
     (let q = n div d; r = n mod d in
      if 2 * r < d then q
      else if d < 2 * r then q + 1
      else if even q then q else q + 1)"

fun bits :: "nat \<Rightarrow> nat" where
  "bits n = (if n = 0 then 0 else Suc (bits (n div 2)))"

declare bits.simps [simp del]

definition quot_exponent :: "nat \<Rightarrow> nat \<Rightarrow> int" where
  "quot_exponent a b =
     (let d = int (bits a) - int (bits b) in
      if b * 2 ^ nat d \<le> a * 2 ^ nat (- d) then d else d - 1)"

definition js_div :: "nat \<Rightarrow> nat \<Rightarrow> jsnum" where
  "js_div a b =
     (if b = 0 then (if a = 0 then NaN else Infinity)
      else if a = 0 then Val 0
      else
        (let e = max (quot_exponent a b) (- 1022);
             m = round_half_even (a * 2 ^ nat (52 - e)) (b * 2 ^ nat (e - 52))
         in if pow2 1024 \<le> of_nat m * pow2 (e - 52) then Infinity
            else Val (of_nat m * pow2 (e - 52))))"

type_synonym samples = "rat list"

type_synonym promise = nat

datatype pstate = Pending | Fulfilled | Rejected exn

subsection \<open>Worker protocol\<close>

datatype to_worker =
    Init
  | Generate nat string string "rat option"

datatype from_worker =
    InitProgress rat string
  | InitDone
  | InitError string
  | GenerateDone nat samples nat
  | GenerateError nat string

subsection \<open>The worker (\<^verbatim>\<open>tts-worker.ts\<close>)\<close>

text \<open>
  The engine is the external \<^verbatim>\<open>KokoroTTS\<close> object: \<^verbatim>\<open>generate(text, {voice, speed})\<close> either
  throws (the text of the error is kept) or returns the audio and its sampling rate.
\<close>

type_synonym engine = "string \<Rightarrow> string \<Rightarrow> rat \<Rightarrow> string + (samples \<times> nat)"

record worker_state =
  tts :: "engine option"

datatype worker_effect =
    PostMessage from_worker
  | LoadModel
  | Synthesize string string rat

definition worker_initial :: worker_state where
  "worker_initial = \<lparr> tts = None \<rparr>"

text \<open>
  \<^verbatim>\<open>self.onmessage\<close>. For \<^verbatim>\<open>init\<close> the handler starts loading the model and suspends at the
  \<^verbatim>\<open>await\<close>; \<open>worker_loaded\<close> below is its continuation. For \<^verbatim>\<open>generate\<close> the check of \<^verbatim>\<open>tts\<close>
  runs synchronously when the message is handled.
\<close>

definition worker_onmessage :: "worker_state \<Rightarrow> to_worker \<Rightarrow> worker_state \<times> worker_effect list" where
  "worker_onmessage w msg =
     (case msg of
        Init \<Rightarrow> (w, [LoadModel])
      | Generate i text voiceId speed \<Rightarrow>
          (case tts w of
             None \<Rightarrow> (w, [PostMessage (GenerateError i ''TTS not initialized'')])
           | Some e \<Rightarrow>
               (let sp = (case speed of None \<Rightarrow> 1 | Some v \<Rightarrow> v) in
                (case e text voiceId sp of
                   Inr (audio, sampleRate) \<Rightarrow>
                     (w, [Synthesize text voiceId sp, PostMessage (GenerateDone i audio sampleRate)])
                 | Inl err \<Rightarrow>
                     (w, [Synthesize text voiceId sp, PostMessage (GenerateError i err)])))))"

text \<open>The continuation of the \<^verbatim>\<open>init\<close> branch: \<^verbatim>\<open>from_pretrained\<close> returned or threw.\<close>

definition worker_loaded :: "worker_state \<Rightarrow> string + engine \<Rightarrow> worker_state \<times> worker_effect list" where
  "worker_loaded w r =
     (case r of
        Inr e \<Rightarrow> (w\<lparr> tts := Some e \<rparr>, [PostMessage InitDone])
      | Inl err \<Rightarrow> (w, [PostMessage (InitError err)]))"

text \<open>
  What happens in the worker, in order: a message is handled, or the pending load of the
  model finishes.
\<close>

datatype worker_event = Receive to_worker | Loaded "string + engine"

definition worker_step :: "worker_state \<Rightarrow> worker_event \<Rightarrow> worker_state" where
  "worker_step w ev =
     (case ev of
        Receive msg \<Rightarrow> fst (worker_onmessage w msg)
      | Loaded r \<Rightarrow> fst (worker_loaded w r))"

definition worker_run :: "worker_state \<Rightarrow> worker_event list \<Rightarrow> worker_state" where
  "worker_run w evs = foldl worker_step w evs"

text \<open>No load has succeeded among the events.\<close>

definition not_loaded :: "worker_event list \<Rightarrow> bool" where
  "not_loaded evs = list_all (\<lambda>ev. case ev of Loaded (Inr e) \<Rightarrow> False | _ \<Rightarrow> True) evs"

subsection \<open>The audio platform\<close>

record AudioBuffer =
  numberOfChannels :: nat
  frames :: nat
  sampleRate :: nat
  channelData :: samples

datatype status = Playing | Stopped | Ended

text \<open>
  A source node that was started. \<open>Playing\<close>: audible, its \<^verbatim>\<open>ended\<close> event has not fired.
  \<open>Stopped\<close>: \<^verbatim>\<open>stop()\<close> was called, silent, its \<^verbatim>\<open>ended\<close> event has not fired yet.
  \<open>Ended\<close>: its \<^verbatim>\<open>ended\<close> event has fired.
\<close>

record source =
  buffer :: AudioBuffer
  status :: status

text \<open>
  What the code cannot know about the platform is a parameter: which sample rates
  \<^verbatim>\<open>createBuffer\<close> accepts, and whether \<^verbatim>\<open>stop()\<close> raises on a node that is not playing
  (Web Audio does not; the code guards against a platform that does).
\<close>

record platform =
  rate_supported :: "nat \<Rightarrow> bool"
  strict_stop :: bool

definition createBuffer :: "platform \<Rightarrow> nat \<Rightarrow> nat \<Rightarrow> nat \<Rightarrow> exn + AudioBuffer" where
  "createBuffer pf channels len rate =
     (if channels = 0 \<or> len = 0 \<or> rate = 0 \<or> \<not> rate_supported pf rate
      then Inl NotSupportedError
      else Inr \<lparr> numberOfChannels = channels, frames = len, sampleRate = rate,
                 channelData = replicate len 0 \<rparr>)"

definition stop_source :: "platform \<Rightarrow> source list \<Rightarrow> nat \<Rightarrow> exn + source list" where
  "stop_source pf srcs k =
     (if k < length srcs \<and> status (srcs ! k) = Playing
      then Inr (srcs[k := (srcs ! k)\<lparr> status := Stopped \<rparr>])
      else if strict_stop pf then Inl InvalidStateError
      else Inr srcs)"

subsection \<open>The voice manager (\<^verbatim>\<open>NPCVoiceManager\<close>)\<close>

definition TTS_SAMPLE_RATE :: nat where
  "TTS_SAMPLE_RATE = 24000"

text \<open>
  The handler installed on \<^verbatim>\<open>worker.onmessage\<close>. The initialisation handler is a closure
  over \<^verbatim>\<open>onProgress\<close> (named by a callback id when supplied), over \<^verbatim>\<open>resolve/reject\<close> of the
  promise awaited in \<^verbatim>\<open>_init\<close>, and it belongs to the \<^verbatim>\<open>_init\<close> invocation whose result promise
  is the third argument.
\<close>

datatype handler =
    InitHandler "nat option" promise promise
  | SteadyHandler

datatype effect =
    SpawnWorker
  | PostToWorker to_worker
  | Progress nat rat string
  | CreateContext nat
  | StopCall nat
  | Warn exn

record manager =
  worker :: "handler option"
  audioCtx :: "nat option"
  playbackQueue :: "AudioBuffer list"
  isPlaying :: bool
  currentSource :: "nat option"
  nextId :: nat
  pending :: "(nat \<times> promise) list"
  initialized :: bool
  initPromise :: "promise option"
  promises :: "pstate list"
  sources :: "source list"
  effects :: "effect list"

definition initial :: manager where
  "initial = \<lparr> worker = None, audioCtx = None, playbackQueue = [], isPlaying = False,
               currentSource = None, nextId = 0, pending = [], initialized = False,
               initPromise = None, promises = [], sources = [], effects = [] \<rparr>"

definition is_pending :: "pstate list \<Rightarrow> promise \<Rightarrow> bool" where
  "is_pending h p = (p < length h \<and> h ! p = Pending)"

text \<open>A promise settles once: settling a settled promise changes nothing.\<close>

definition settle :: "pstate list \<Rightarrow> promise \<Rightarrow> pstate \<Rightarrow> pstate list" where
  "settle h p st = (if is_pending h p then h[p := st] else h)"

subsubsection \<open>Initialisation\<close>

datatype init_result = Immediate | Follows promise

text \<open>
  \<^verbatim>\<open>_init\<close> up to its \<^verbatim>\<open>await\<close>: the worker is created, the initialisation handler installed
  and \<^verbatim>\<open>init\<close> posted. Two promises are allocated: the result promise of the async function
  and the one constructed and awaited inside it.
\<close>

definition private_init :: "manager \<Rightarrow> nat option \<Rightarrow> manager \<times> promise" where
  "private_init s onProgress =
     (let outer = length (promises s); inner = Suc outer in
      (s\<lparr> worker := Some (InitHandler onProgress inner outer),
          promises := promises s @ [Pending, Pending],
          effects := effects s @ [SpawnWorker, PostToWorker Init] \<rparr>, outer))"

definition init :: "manager \<Rightarrow> nat option \<Rightarrow> manager \<times> init_result" where
  "init s onProgress =
     (if initialized s then (s, Immediate)
      else case initPromise s of
             Some p \<Rightarrow> (s, Follows p)
           | None \<Rightarrow>
               (case private_init s onProgress of
                  (s', p) \<Rightarrow> (s'\<lparr> initPromise := Some p \<rparr>, Follows p)))"

definition isReady :: "manager \<Rightarrow> bool" where
  "isReady s = initialized s"

text \<open>Microtasks queued by a message handler: the continuations of suspended async functions.\<close>

datatype outcome = Resolved samples nat | Threw exn

datatype job =
    InitResume promise
  | InitThrow promise exn
  | SpeakResume promise outcome

text \<open>The handler that \<^verbatim>\<open>_init\<close> installs.\<close>

definition init_onmessage ::
  "manager \<Rightarrow> nat option \<Rightarrow> promise \<Rightarrow> promise \<Rightarrow> from_worker \<Rightarrow> manager \<times> job option" where
  "init_onmessage s onProgress inner outer msg =
     (case msg of
        InitProgress pr st \<Rightarrow>
          (case onProgress of
             None \<Rightarrow> (s, None)
           | Some cb \<Rightarrow> (s\<lparr> effects := effects s @ [Progress cb pr st] \<rparr>, None))
      | InitDone \<Rightarrow>
          (s\<lparr> initialized := True, worker := Some SteadyHandler,
              promises := settle (promises s) inner Fulfilled \<rparr>,
           if is_pending (promises s) inner then Some (InitResume outer) else None)
      | InitError err \<Rightarrow>
          (s\<lparr> promises := settle (promises s) inner (Rejected (Error err)) \<rparr>,
           if is_pending (promises s) inner then Some (InitThrow outer (Error err)) else None)
      | _ \<Rightarrow> (s, None))"

text \<open>\<^verbatim>\<open>_init\<close> after its \<^verbatim>\<open>await\<close>: the audio context is created at the engine's rate.\<close>

definition init_resume :: "manager \<Rightarrow> promise \<Rightarrow> manager" where
  "init_resume s outer =
     s\<lparr> audioCtx := Some TTS_SAMPLE_RATE,
        effects := effects s @ [CreateContext TTS_SAMPLE_RATE],
        promises := settle (promises s) outer Fulfilled \<rparr>"

definition init_throw :: "manager \<Rightarrow> promise \<Rightarrow> exn \<Rightarrow> manager" where
  "init_throw s outer err = s\<lparr> promises := settle (promises s) outer (Rejected err) \<rparr>"

subsubsection \<open>Request/response correlation\<close>

definition handleMessage :: "manager \<Rightarrow> from_worker \<Rightarrow> manager \<times> job option" where
  "handleMessage s msg =
     (case msg of
        GenerateDone i audio rate \<Rightarrow>
          (case map_of (pending s) i of
             None \<Rightarrow> (s, None)
           | Some req \<Rightarrow>
               (s\<lparr> pending := AList.delete i (pending s),
                   promises := settle (promises s) req Fulfilled \<rparr>,
                Some (SpeakResume req (Resolved audio rate))))
      | GenerateError i err \<Rightarrow>
          (case map_of (pending s) i of
             None \<Rightarrow> (s, None)
           | Some req \<Rightarrow>
               (s\<lparr> pending := AList.delete i (pending s),
                   promises := settle (promises s) req (Rejected (Error err)) \<rparr>,
                Some (SpeakResume req (Threw (Error err)))))
      | _ \<Rightarrow> (s, None))"

text \<open>
  \<^verbatim>\<open>generateAudio\<close>: a rejected promise is the left summand; otherwise the new state, the id
  that was allocated and the pending promise that is returned.
\<close>

definition generateAudio :: "manager \<Rightarrow> string \<Rightarrow> string \<Rightarrow> exn + (manager \<times> nat \<times> promise)" where
  "generateAudio s text voiceId =
     (if worker s = None then Inl (Error ''TTS worker not initialized'')
      else
        (let i = nextId s; p = length (promises s) in
         Inr (s\<lparr> nextId := nextId s + 1,
                 promises := promises s @ [Pending],
                 pending := AList.update i p (pending s),
                 effects := effects s @ [PostToWorker (Generate i text voiceId None)] \<rparr>, i, p)))"

subsubsection \<open>Playback scheduler\<close>

definition drainQueue :: "manager \<Rightarrow> manager" where
  "drainQueue s =
     (if isPlaying s \<or> playbackQueue s = [] \<or> audioCtx s = None then s
      else
        (case playbackQueue s of
           [] \<Rightarrow> s
         | b # rest \<Rightarrow>
             s\<lparr> isPlaying := True,
                playbackQueue := rest,
                currentSource := Some (length (sources s)),
                sources := sources s @ [\<lparr> buffer = b, status = Playing \<rparr>] \<rparr>))"

text \<open>The \<^verbatim>\<open>onended\<close> callback that \<^verbatim>\<open>drainQueue\<close> registers on the source it starts.\<close>

definition onended :: "manager \<Rightarrow> manager" where
  "onended s = drainQueue (s\<lparr> isPlaying := False, currentSource := None \<rparr>)"

definition stopPlayback :: "platform \<Rightarrow> manager \<Rightarrow> exn + manager" where
  "stopPlayback pf s =
     (let s1 = s\<lparr> playbackQueue := [] \<rparr>;
          s2 = (case currentSource s1 of
                  None \<Rightarrow> s1
                | Some k \<Rightarrow>
                    (let s3 = s1\<lparr> effects := effects s1 @ [StopCall k] \<rparr>;
                         s4 = (case stop_source pf (sources s3) k of
                                 Inr srcs \<Rightarrow> s3\<lparr> sources := srcs \<rparr>
                               | Inl err \<Rightarrow> s3)
                     in s4\<lparr> currentSource := None \<rparr>))
      in Inr (s2\<lparr> isPlaying := False \<rparr>))"

subsubsection \<open>Speak pipeline\<close>

datatype speak_result = Returned jsnum | Awaiting nat promise

definition warn :: "manager \<Rightarrow> exn \<Rightarrow> manager" where
  "warn s err = s\<lparr> effects := effects s @ [Warn err] \<rparr>"

text \<open>
  \<^verbatim>\<open>speakSentence\<close> up to its \<^verbatim>\<open>await\<close>. A rejected promise from \<^verbatim>\<open>generateAudio\<close> makes the
  \<^verbatim>\<open>await\<close> throw inside the \<^verbatim>\<open>try\<close>, so the \<^verbatim>\<open>catch\<close> branch runs.
\<close>

definition speakSentence :: "manager \<Rightarrow> string \<Rightarrow> string \<Rightarrow> exn + (manager \<times> speak_result)" where
  "speakSentence s text voiceId =
     (if audioCtx s = None \<or> \<not> initialized s then Inr (s, Returned (Val 0))
      else
        (case generateAudio s text voiceId of
           Inl err \<Rightarrow> Inr (warn s err, Returned (Val 0))
         | Inr (s', i, p) \<Rightarrow> Inr (s', Awaiting i p)))"

text \<open>
  \<^verbatim>\<open>speakSentence\<close> after its \<^verbatim>\<open>await\<close>, still inside the \<^verbatim>\<open>try\<close>: every exception raised here
  (the rejection itself, \<^verbatim>\<open>createBuffer\<close> refusing the arguments) reaches the \<^verbatim>\<open>catch\<close>.
\<close>

definition speakSentence_resume :: "platform \<Rightarrow> manager \<Rightarrow> outcome \<Rightarrow> exn + (manager \<times> jsnum)" where
  "speakSentence_resume pf s out =
     (case out of
        Threw err \<Rightarrow> Inr (warn s err, Val 0)
      | Resolved audio rate \<Rightarrow>
          (let duration = js_div (length audio) rate in
           (case audioCtx s of
              None \<Rightarrow> Inr (warn s TypeError, Val 0)
            | Some ctx \<Rightarrow>
                (case createBuffer pf 1 (length audio) rate of
                   Inl err \<Rightarrow> Inr (warn s err, Val 0)
                 | Inr b \<Rightarrow>
                     Inr (drainQueue (s\<lparr> playbackQueue :=
                                          playbackQueue s @ [b\<lparr> channelData := audio \<rparr>] \<rparr>),
                          duration)))))"

subsection \<open>The event loop\<close>

text \<open>
  One event is one task of the manager's thread: a call of the public interface, a message
  from the worker (the installed handler runs, then the microtask it queued), or the
  \<^verbatim>\<open>ended\<close> event of a source node. An \<^verbatim>\<open>ended\<close> event can fire once per started node, also
  for a node that was stopped.
\<close>

datatype event =
    CallInit "nat option"
  | CallSpeak string string
  | CallStop
  | Message from_worker
  | SourceEnded nat

definition run_job :: "platform \<Rightarrow> manager \<Rightarrow> job \<Rightarrow> manager" where
  "run_job pf s j =
     (case j of
        InitResume outer \<Rightarrow> init_resume s outer
      | InitThrow outer err \<Rightarrow> init_throw s outer err
      | SpeakResume p out \<Rightarrow>
          (case speakSentence_resume pf s out of
             Inr (s', d) \<Rightarrow> s'
           | Inl err \<Rightarrow> s))"

definition dispatch :: "manager \<Rightarrow> from_worker \<Rightarrow> manager \<times> job option" where
  "dispatch s msg =
     (case worker s of
        None \<Rightarrow> (s, None)
      | Some (InitHandler onProgress inner outer) \<Rightarrow> init_onmessage s onProgress inner outer msg
      | Some SteadyHandler \<Rightarrow> handleMessage s msg)"

definition on_message :: "platform \<Rightarrow> manager \<Rightarrow> from_worker \<Rightarrow> manager" where
  "on_message pf s msg =
     (case dispatch s msg of
        (s', None) \<Rightarrow> s'
      | (s', Some j) \<Rightarrow> run_job pf s' j)"

definition source_ended :: "manager \<Rightarrow> nat \<Rightarrow> manager" where
  "source_ended s k =
     (if k < length (sources s) \<and> status (sources s ! k) \<noteq> Ended
      then onended (s\<lparr> sources := (sources s)[k := (sources s ! k)\<lparr> status := Ended \<rparr>] \<rparr>)
      else s)"

definition step :: "platform \<Rightarrow> manager \<Rightarrow> event \<Rightarrow> manager" where
  "step pf s e =
     (case e of
        CallInit onProgress \<Rightarrow> fst (init s onProgress)
      | CallSpeak text voiceId \<Rightarrow>
          (case speakSentence s text voiceId of Inr (s', r) \<Rightarrow> s' | Inl err \<Rightarrow> s)
      | CallStop \<Rightarrow> (case stopPlayback pf s of Inr s' \<Rightarrow> s' | Inl err \<Rightarrow> s)
      | Message msg \<Rightarrow> on_message pf s msg
      | SourceEnded k \<Rightarrow> source_ended s k)"

definition run :: "platform \<Rightarrow> manager \<Rightarrow> event list \<Rightarrow> manager" where
  "run pf s es = foldl (step pf) s es"

text \<open>The Web Audio platform: the rates every implementation accepts, a tolerant \<^verbatim>\<open>stop()\<close>.\<close>

definition web_audio :: platform where
  "web_audio = \<lparr> rate_supported = (\<lambda>r. 8000 \<le> r \<and> r \<le> 96000), strict_stop = False \<rparr>"

subsection \<open>Observations\<close>

text \<open>The request ids that were posted to the worker, in posting order.\<close>

definition posted_ids :: "effect list \<Rightarrow> nat list" where
  "posted_ids es =
     concat (map (\<lambda>e. case e of PostToWorker (Generate i t v sp) \<Rightarrow> [i] | _ \<Rightarrow> []) es)"

text \<open>How many workers were created.\<close>

definition spawned :: "effect list \<Rightarrow> nat" where
  "spawned es = length (filter (\<lambda>e. e = SpawnWorker) es)"

text \<open>The clips that were started on the device, in start order, and those audible now.\<close>

definition started :: "manager \<Rightarrow> AudioBuffer list" where
  "started s = map buffer (sources s)"

definition playing :: "manager \<Rightarrow> source list" where
  "playing s = filter (\<lambda>x. status x = Playing) (sources s)"

subsection \<open>Awaited calls\<close>

text \<open>
  A caller that awaits each \<^verbatim>\<open>speakSentence\<close> before issuing the next produces rounds: the
  call, then the worker's answer to the request that this call posted. \<^verbatim>\<open>ended\<close> events of
  the device may fire before the call and between the call and the answer.
\<close>

datatype reply = Synthesized samples nat | Failed string

fun reply_msg :: "nat \<Rightarrow> reply \<Rightarrow> from_worker" where
  "reply_msg i (Synthesized audio rate) = GenerateDone i audio rate"
| "reply_msg i (Failed err) = GenerateError i err"

type_synonym round = "nat list \<times> string \<times> string \<times> nat list \<times> reply"

fun awaited :: "nat \<Rightarrow> round list \<Rightarrow> event list" where
  "awaited n [] = []"
| "awaited n ((before, text, voiceId, between, r) # rs) =
     map SourceEnded before @ [CallSpeak text voiceId] @ map SourceEnded between @
     [Message (reply_msg n r)] @ awaited (Suc n) rs"

text \<open>The clip that a reply yields: none when synthesis failed or the device refuses the data.\<close>

fun clip_of :: "platform \<Rightarrow> reply \<Rightarrow> AudioBuffer list" where
  "clip_of pf (Synthesized audio rate) =
     (case createBuffer pf 1 (length audio) rate of
        Inr b \<Rightarrow> [b\<lparr> channelData := audio \<rparr>]
      | Inl err \<Rightarrow> [])"
| "clip_of pf (Failed err) = []"

fun clips :: "platform \<Rightarrow> round list \<Rightarrow> AudioBuffer list" where
  "clips pf [] = []"
| "clips pf ((before, text, voiceId, between, r) # rs) = clip_of pf r @ clips pf rs"

text \<open>
  A run in which no \<^verbatim>\<open>ended\<close> event is stale: whenever one fires (its source was started
  and has not fired before), the manager holds that source in \<^verbatim>\<open>currentSource\<close> or holds no
  source at all.
\<close>

definition fires :: "manager \<Rightarrow> nat \<Rightarrow> bool" where
  "fires s k = (k < length (sources s) \<and> status (sources s ! k) \<noteq> Ended)"

fun current_only :: "platform \<Rightarrow> manager \<Rightarrow> event list \<Rightarrow> bool" where
  "current_only pf s [] = True"
| "current_only pf s (e # es) =
     ((case e of
         SourceEnded k \<Rightarrow> fires s k \<longrightarrow> currentSource s = Some k \<or> currentSource s = None
       | _ \<Rightarrow> True) \<and>
      current_only pf (step pf s e) es)"

subsection \<open>Invariants\<close>

text \<open>The state in which \<^verbatim>\<open>speakSentence\<close> proceeds to synthesis: initialisation has completed.\<close>

definition ready :: "manager \<Rightarrow> bool" where
  "ready s = (audioCtx s \<noteq> None \<and> initialized s \<and> worker s = Some SteadyHandler)"

text \<open>Every audible source is the one the manager holds, and the manager knows it is playing.\<close>

definition one_playing :: "manager \<Rightarrow> bool" where
  "one_playing s =
     (\<forall>k < length (sources s). status (sources s ! k) = Playing \<longrightarrow>
        currentSource s = Some k \<and> isPlaying s)"

text \<open>No source has been stopped, and every audible one is the current one.\<close>

definition calm :: "manager \<Rightarrow> bool" where
  "calm s = (one_playing s \<and> (\<forall>k < length (sources s). status (sources s ! k) \<noteq> Stopped))"

text \<open>A worker exists exactly when the initialisation promise does.\<close>

definition spawn_inv :: "manager \<Rightarrow> bool" where
  "spawn_inv s =
     (case initPromise s of
        None \<Rightarrow> \<not> initialized s \<and> worker s = None \<and> spawned (effects s) = 0
      | Some p \<Rightarrow> spawned (effects s) = 1)"

section \<open>Auxiliary facts\<close>

subsection \<open>Runs\<close>

lemma run_Nil: "run pf s [] = s"
  by (simp add: run_def)

lemma run_Cons: "run pf s (e # es) = run pf (step pf s e) es"
  by (simp add: run_def)

lemma run_append: "run pf s (es @ es') = run pf (run pf s es) es'"
  by (simp add: run_def)

lemmas step_unfold =
  step_def init_def private_init_def speakSentence_def generateAudio_def warn_def Let_def
  stopPlayback_def on_message_def dispatch_def init_onmessage_def handleMessage_def run_job_def
  init_resume_def init_throw_def speakSentence_resume_def source_ended_def onended_def

lemmas step_splits =
  option.splits sum.splits handler.splits from_worker.splits job.splits if_splits
  outcome.splits prod.splits

lemmas js_div_eval =
  js_div_def quot_exponent_def bits.simps pow2_def round_half_even_def Let_def

lemmas eval_defs =
  run_def step_def init_def private_init_def on_message_def dispatch_def init_onmessage_def
  is_pending_def settle_def run_job_def init_resume_def init_throw_def initial_def
  speakSentence_def generateAudio_def handleMessage_def speakSentence_resume_def
  createBuffer_def web_audio_def drainQueue_def stopPlayback_def stop_source_def
  source_ended_def onended_def warn_def TTS_SAMPLE_RATE_def Let_def

subsection \<open>What the scheduler leaves alone\<close>

lemma drainQueue_frame:
  "effects (drainQueue s) = effects s" "nextId (drainQueue s) = nextId s"
  "pending (drainQueue s) = pending s" "worker (drainQueue s) = worker s"
  "audioCtx (drainQueue s) = audioCtx s" "initialized (drainQueue s) = initialized s"
  "initPromise (drainQueue s) = initPromise s" "promises (drainQueue s) = promises s"
  by (simp_all add: drainQueue_def split: list.splits)

lemma drainQueue_conserves:
  "started (drainQueue s) @ playbackQueue (drainQueue s) = started s @ playbackQueue s"
  by (simp add: drainQueue_def started_def split: list.splits)

lemma init_device:
  "sources (fst (init s cb)) = sources s" "currentSource (fst (init s cb)) = currentSource s"
  "isPlaying (fst (init s cb)) = isPlaying s" "playbackQueue (fst (init s cb)) = playbackQueue s"
  by (simp_all add: init_def private_init_def Let_def split: option.splits)

lemma speakSentence_device:
  "speakSentence s t v = Inr (s', r) \<Longrightarrow>
     sources s' = sources s \<and> currentSource s' = currentSource s \<and>
     isPlaying s' = isPlaying s \<and> playbackQueue s' = playbackQueue s"
  by (auto simp: speakSentence_def generateAudio_def warn_def Let_def split: if_splits sum.splits)

lemma dispatch_device:
  "dispatch s m = (s', j) \<Longrightarrow>
     sources s' = sources s \<and> currentSource s' = currentSource s \<and>
     isPlaying s' = isPlaying s \<and> playbackQueue s' = playbackQueue s"
  by (auto simp: dispatch_def init_onmessage_def handleMessage_def
      split: option.splits handler.splits from_worker.splits if_splits)

subsection \<open>Request ids\<close>

lemma posted_ids_append: "posted_ids (xs @ ys) = posted_ids xs @ posted_ids ys"
  by (simp add: posted_ids_def)

lemma step_ids:
  "posted_ids (effects (step pf s e)) = posted_ids (effects s) @ [nextId s ..< nextId (step pf s e)]
   \<and> nextId s \<le> nextId (step pf s e)"
  by (cases e) (auto simp: step_unfold posted_ids_append posted_ids_def drainQueue_frame
      split: step_splits)

lemma run_ids:
  "posted_ids (effects (run pf s es)) = posted_ids (effects s) @ [nextId s ..< nextId (run pf s es)]
   \<and> nextId s \<le> nextId (run pf s es)"
proof (induction es arbitrary: s)
  case Nil
  show ?case by (simp add: run_Nil)
next
  case (Cons e es)
  let ?t = "step pf s e"
  from step_ids [of pf s e]
  have a: "posted_ids (effects ?t) = posted_ids (effects s) @ [nextId s ..< nextId ?t]"
    and b: "nextId s \<le> nextId ?t" by simp_all
  from Cons.IH [of ?t]
  have c: "posted_ids (effects (run pf ?t es)) =
             posted_ids (effects ?t) @ [nextId ?t ..< nextId (run pf ?t es)]"
    and d: "nextId ?t \<le> nextId (run pf ?t es)" by simp_all
  have "[nextId s ..< nextId ?t] @ [nextId ?t ..< nextId (run pf ?t es)] =
        [nextId s ..< nextId (run pf ?t es)]"
    using b d by (metis le_Suc_ex upt_add_eq_append)
  then show ?case using a b c d by (simp add: run_Cons)
qed

subsection \<open>Workers spawned\<close>

lemma step_spawn_inv: "spawn_inv s \<Longrightarrow> spawn_inv (step pf s e)"
  by (cases e) (auto simp: spawn_inv_def spawned_def step_unfold drainQueue_frame
      split: step_splits)

lemma step_initPromise: "initPromise s = Some p \<Longrightarrow> initPromise (step pf s e) = Some p"
  by (cases e) (auto simp: step_unfold drainQueue_frame split: step_splits)

lemma run_spawn_inv: "spawn_inv s \<Longrightarrow> spawn_inv (run pf s es)"
  by (induction es arbitrary: s) (simp_all add: run_Nil run_Cons step_spawn_inv)

lemma run_initPromise: "initPromise s = Some p \<Longrightarrow> initPromise (run pf s es) = Some p"
  by (induction es arbitrary: s) (simp_all add: run_Nil run_Cons step_initPromise)

lemma init_follows: "snd (init s cb) = Follows p \<Longrightarrow> initPromise (fst (init s cb)) = Some p"
  by (auto simp: init_def private_init_def Let_def split: if_splits option.splits)

lemma init_sets_promise: "spawn_inv s \<Longrightarrow> initPromise (fst (init s cb)) \<noteq> None"
  by (auto simp: spawn_inv_def init_def private_init_def Let_def split: option.splits)

lemma run_init_called:
  "spawn_inv s \<Longrightarrow> CallInit cb \<in> set es \<Longrightarrow> initPromise (run pf s es) \<noteq> None"
proof (induction es arbitrary: s)
  case Nil
  then show ?case by simp
next
  case (Cons e es)
  show ?case
  proof (cases "e = CallInit cb")
    case True
    then have "initPromise (step pf s e) \<noteq> None"
      using init_sets_promise [OF Cons.prems(1)] by (simp add: step_def)
    then obtain p where "initPromise (step pf s e) = Some p" by auto
    then show ?thesis using run_initPromise by (simp add: run_Cons)
  next
    case False
    then have "CallInit cb \<in> set es" using Cons.prems(2) by simp
    then show ?thesis using Cons.IH [OF step_spawn_inv [OF Cons.prems(1)]] by (simp add: run_Cons)
  qed
qed

subsection \<open>One audible source\<close>

lemma filter_at_most_one:
  "(\<And>i j. i < length xs \<Longrightarrow> j < length xs \<Longrightarrow> P (xs ! i) \<Longrightarrow> P (xs ! j) \<Longrightarrow> i = j)
     \<Longrightarrow> length (filter P xs) \<le> 1"
proof (induction xs)
  case Nil
  show ?case by simp
next
  case (Cons x xs)
  have sub: "\<And>i j. i < length xs \<Longrightarrow> j < length xs \<Longrightarrow> P (xs ! i) \<Longrightarrow> P (xs ! j) \<Longrightarrow> i = j"
  proof -
    fix i j assume "i < length xs" "j < length xs" "P (xs ! i)" "P (xs ! j)"
    then have "Suc i = Suc j" using Cons.prems [of "Suc i" "Suc j"] by simp
    then show "i = j" by simp
  qed
  show ?case
  proof (cases "P x")
    case False
    then show ?thesis using Cons.IH [OF sub] by simp
  next
    case True
    have "filter P xs = []"
    proof (rule ccontr)
      assume "filter P xs \<noteq> []"
      then obtain y where "y \<in> set xs" "P y" by (auto simp: filter_empty_conv)
      then obtain j where "j < length xs" "xs ! j = y" by (auto simp: in_set_conv_nth)
      with \<open>P y\<close> True have "0 = Suc j" using Cons.prems [of 0 "Suc j"] by simp
      then show False by simp
    qed
    with True show ?thesis by simp
  qed
qed

lemma one_playingD:
  "one_playing s \<Longrightarrow> k < length (sources s) \<Longrightarrow> status (sources s ! k) = Playing
     \<Longrightarrow> currentSource s = Some k \<and> isPlaying s"
  by (simp add: one_playing_def)

lemma one_playing_bound: "one_playing s \<Longrightarrow> length (playing s) \<le> 1"
  unfolding playing_def
proof (rule filter_at_most_one)
  fix i j
  assume inv: "one_playing s" and "i < length (sources s)" "j < length (sources s)"
    "status (sources s ! i) = Playing" "status (sources s ! j) = Playing"
  then have "currentSource s = Some i" "currentSource s = Some j"
    using one_playingD by blast+
  then show "i = j" by simp
qed

lemma one_playing_idle:
  "one_playing s \<Longrightarrow> \<not> isPlaying s \<Longrightarrow> k < length (sources s)
     \<Longrightarrow> status (sources s ! k) \<noteq> Playing"
  by (auto simp: one_playing_def)

lemma drainQueue_one_playing: "one_playing s \<Longrightarrow> one_playing (drainQueue s)"
proof -
  assume a: "one_playing s"
  show ?thesis
  proof (cases "isPlaying s \<or> playbackQueue s = [] \<or> audioCtx s = None")
    case True
    then show ?thesis using a by (simp add: drainQueue_def)
  next
    case False
    then obtain b rest where q: "playbackQueue s = b # rest" by (cases "playbackQueue s") auto
    from False have idle: "\<not> isPlaying s" by simp
    have "\<forall>k < length (sources s). status (sources s ! k) \<noteq> Playing"
      using one_playing_idle [OF a idle] by blast
    then show ?thesis using False q
      by (auto simp: one_playing_def drainQueue_def nth_append)
  qed
qed

lemma speakSentence_resume_one_playing:
  "one_playing s \<Longrightarrow> speakSentence_resume pf s out = Inr (s', d) \<Longrightarrow> one_playing s'"
proof -
  assume a: "one_playing s" and b: "speakSentence_resume pf s out = Inr (s', d)"
  have w: "\<And>e. one_playing (warn s e)" using a by (simp add: one_playing_def warn_def)
  have q: "\<And>x. one_playing (drainQueue (s\<lparr>playbackQueue := x\<rparr>))"
    using a by (intro drainQueue_one_playing) (simp add: one_playing_def)
  show ?thesis using b w q
    by (auto simp: speakSentence_resume_def Let_def split: outcome.splits option.splits sum.splits)
qed

lemma run_job_one_playing: "one_playing s \<Longrightarrow> one_playing (run_job pf s j)"
proof (cases j)
  case (InitResume p)
  assume "one_playing s"
  then show ?thesis using InitResume by (simp add: run_job_def init_resume_def one_playing_def)
next
  case (InitThrow p e)
  assume "one_playing s"
  then show ?thesis using InitThrow by (simp add: run_job_def init_throw_def one_playing_def)
next
  case (SpeakResume p out)
  assume "one_playing s"
  then show ?thesis using SpeakResume speakSentence_resume_one_playing [of s pf out]
    by (auto simp: run_job_def split: sum.splits)
qed

lemma on_message_one_playing: "one_playing s \<Longrightarrow> one_playing (on_message pf s m)"
proof -
  assume a: "one_playing s"
  obtain s' j where d: "dispatch s m = (s', j)" by (cases "dispatch s m")
  from dispatch_device [OF d] a have "one_playing s'" by (simp add: one_playing_def)
  then show ?thesis using d by (cases j) (simp_all add: on_message_def run_job_one_playing)
qed

lemma stop_source_quiet:
  "stop_source pf srcs c = Inr srcs' \<Longrightarrow>
     length srcs' = length srcs \<and>
     (\<forall>k < length srcs. status (srcs' ! k) = Playing \<longrightarrow> status (srcs ! k) = Playing \<and> k \<noteq> c)"
  by (auto simp: stop_source_def nth_list_update split: if_splits)

lemma stop_source_raises:
  "stop_source pf srcs c = Inl err \<Longrightarrow> \<not> (c < length srcs \<and> status (srcs ! c) = Playing)"
  by (auto simp: stop_source_def split: if_splits)

lemma stopPlayback_one_playing:
  "one_playing s \<Longrightarrow> stopPlayback pf s = Inr s' \<Longrightarrow> one_playing s'"
proof -
  assume a: "one_playing s" and b: "stopPlayback pf s = Inr s'"
  show ?thesis
  proof (cases "currentSource s")
    case None
    then have "\<forall>k < length (sources s). status (sources s ! k) \<noteq> Playing"
      using a by (auto simp: one_playing_def)
    then show ?thesis using b None by (auto simp: stopPlayback_def Let_def one_playing_def)
  next
    case (Some c)
    have only: "\<forall>k < length (sources s). status (sources s ! k) = Playing \<longrightarrow> k = c"
      using a Some by (auto simp: one_playing_def)
    show ?thesis
    proof (cases "stop_source pf (sources s) c")
      case (Inl err)
      from stop_source_raises [OF Inl] only
      have "\<forall>k < length (sources s). status (sources s ! k) \<noteq> Playing" by blast
      then show ?thesis using b Some Inl by (auto simp: stopPlayback_def Let_def one_playing_def)
    next
      case (Inr srcs')
      from stop_source_quiet [OF Inr] only
      have "length srcs' = length (sources s)"
        and "\<forall>k < length (sources s). status (srcs' ! k) \<noteq> Playing" by blast+
      then show ?thesis using b Some Inr by (auto simp: stopPlayback_def Let_def one_playing_def)
    qed
  qed
qed

lemma source_ended_one_playing:
  "one_playing s \<Longrightarrow> currentSource s = Some k \<or> currentSource s = None
     \<Longrightarrow> one_playing (source_ended s k)"
proof -
  assume a: "one_playing s" and c: "currentSource s = Some k \<or> currentSource s = None"
  have only: "\<forall>j < length (sources s). status (sources s ! j) = Playing \<longrightarrow> j = k"
    using a c by (auto simp: one_playing_def)
  have "\<forall>j < length (sources s).
          status ((sources s)[k := (sources s ! k)\<lparr>status := Ended\<rparr>] ! j) \<noteq> Playing"
  proof (intro allI impI)
    fix j assume j: "j < length (sources s)"
    show "status ((sources s)[k := (sources s ! k)\<lparr>status := Ended\<rparr>] ! j) \<noteq> Playing"
    proof (cases "j = k")
      case True
      then show ?thesis using j by simp
    next
      case False
      then show ?thesis using only j by auto
    qed
  qed
  then have "one_playing (s\<lparr>sources := (sources s)[k := (sources s ! k)\<lparr>status := Ended\<rparr>],
                       isPlaying := False, currentSource := None\<rparr>)"
    by (simp add: one_playing_def)
  then show ?thesis using a
    by (simp add: source_ended_def onended_def drainQueue_one_playing)
qed

lemma source_ended_idle: "\<not> fires s k \<Longrightarrow> source_ended s k = s"
  by (auto simp: source_ended_def fires_def)

lemma step_one_playing:
  "one_playing s \<Longrightarrow>
     (case e of
        SourceEnded k \<Rightarrow> fires s k \<longrightarrow> currentSource s = Some k \<or> currentSource s = None
      | _ \<Rightarrow> True)
     \<Longrightarrow> one_playing (step pf s e)"
proof (cases e)
  case (CallInit cb)
  assume "one_playing s"
  then show ?thesis using CallInit by (simp add: step_def one_playing_def init_device)
next
  case (CallSpeak t v)
  assume a: "one_playing s"
  show ?thesis
  proof (cases "speakSentence s t v")
    case (Inl x)
    then show ?thesis using a CallSpeak by (simp add: step_def)
  next
    case (Inr x)
    obtain s' r where "x = (s', r)" by (cases x)
    with Inr speakSentence_device [of s t v s' r] a show ?thesis using CallSpeak
      by (simp add: step_def one_playing_def)
  qed
next
  case CallStop
  assume "one_playing s"
  then show ?thesis using CallStop stopPlayback_one_playing [of s pf]
    by (auto simp: step_def split: sum.splits)
next
  case (Message m)
  assume "one_playing s"
  then show ?thesis using Message by (simp add: step_def on_message_one_playing)
next
  case (SourceEnded k)
  assume a: "one_playing s"
    and "case e of
           SourceEnded k \<Rightarrow> fires s k \<longrightarrow> currentSource s = Some k \<or> currentSource s = None
         | _ \<Rightarrow> True"
  then have g: "fires s k \<longrightarrow> currentSource s = Some k \<or> currentSource s = None"
    using SourceEnded by simp
  show ?thesis
  proof (cases "fires s k")
    case True
    then show ?thesis using a g SourceEnded by (simp add: step_def source_ended_one_playing)
  next
    case False
    then show ?thesis using a SourceEnded by (simp add: step_def source_ended_idle)
  qed
qed

lemma run_one_playing:
  "one_playing s \<Longrightarrow> current_only pf s es \<Longrightarrow> one_playing (run pf s es)"
  by (induction es arbitrary: s) (simp_all add: run_Nil run_Cons step_one_playing)

lemma drainQueue_statuses:
  "(\<forall>k < length (sources s). status (sources s ! k) \<noteq> Stopped) \<Longrightarrow>
   (\<forall>k < length (sources (drainQueue s)). status (sources (drainQueue s) ! k) \<noteq> Stopped)"
  by (auto simp: drainQueue_def nth_append split: list.splits)

lemma source_ended_statuses:
  "(\<forall>j < length (sources s). status (sources s ! j) \<noteq> Stopped) \<Longrightarrow>
   (\<forall>j < length (sources (source_ended s k)). status (sources (source_ended s k) ! j) \<noteq> Stopped)"
proof -
  assume a: "\<forall>j < length (sources s). status (sources s ! j) \<noteq> Stopped"
  let ?t = "s\<lparr>sources := (sources s)[k := (sources s ! k)\<lparr>status := Ended\<rparr>],
              isPlaying := False, currentSource := None\<rparr>"
  have "\<forall>j < length (sources ?t). status (sources ?t ! j) \<noteq> Stopped"
  proof (intro allI impI)
    fix j assume j: "j < length (sources ?t)"
    show "status (sources ?t ! j) \<noteq> Stopped"
    proof (cases "j = k")
      case True
      then show ?thesis using j by simp
    next
      case False
      then show ?thesis using a j by auto
    qed
  qed
  then have "\<forall>j < length (sources (drainQueue ?t)). status (sources (drainQueue ?t) ! j) \<noteq> Stopped"
    by (rule drainQueue_statuses)
  then show ?thesis using a by (simp add: source_ended_def onended_def)
qed

lemma run_job_statuses:
  "(\<forall>k < length (sources s). status (sources s ! k) \<noteq> Stopped) \<Longrightarrow>
   (\<forall>k < length (sources (run_job pf s j)). status (sources (run_job pf s j) ! k) \<noteq> Stopped)"
proof -
  assume a: "\<forall>k < length (sources s). status (sources s ! k) \<noteq> Stopped"
  have q: "\<And>x. \<forall>k < length (sources (drainQueue (s\<lparr>playbackQueue := x\<rparr>))).
              status (sources (drainQueue (s\<lparr>playbackQueue := x\<rparr>)) ! k) \<noteq> Stopped"
    using a by (intro drainQueue_statuses) simp
  show ?thesis
  proof (cases j)
    case (InitResume p)
    then show ?thesis using a by (simp add: run_job_def init_resume_def)
  next
    case (InitThrow p e)
    then show ?thesis using a by (simp add: run_job_def init_throw_def)
  next
    case (SpeakResume p out)
    then show ?thesis using a q
      by (auto simp: run_job_def speakSentence_resume_def warn_def Let_def
          split: outcome.splits option.splits sum.splits)
  qed
qed

lemma step_calm:
  "calm s \<Longrightarrow> e \<noteq> CallStop \<Longrightarrow>
     (case e of
        SourceEnded k \<Rightarrow> fires s k \<longrightarrow> currentSource s = Some k \<or> currentSource s = None
      | _ \<Rightarrow> True) \<and>
     calm (step pf s e)"
proof -
  assume c: "calm s" and ns: "e \<noteq> CallStop"
  from c have op: "one_playing s"
    and st: "\<forall>k < length (sources s). status (sources s ! k) \<noteq> Stopped"
    by (simp_all add: calm_def)
  have g: "case e of
             SourceEnded k \<Rightarrow> fires s k \<longrightarrow> currentSource s = Some k \<or> currentSource s = None
           | _ \<Rightarrow> True"
  proof (cases e)
    case (SourceEnded k)
    have "currentSource s = Some k" if f: "fires s k"
    proof -
      from f have k: "k < length (sources s)" and "status (sources s ! k) \<noteq> Ended"
        by (simp_all add: fires_def)
      with st have "status (sources s ! k) = Playing" by (cases "status (sources s ! k)") auto
      then show ?thesis using one_playingD [OF op k] by simp
    qed
    then show ?thesis using SourceEnded by simp
  qed simp_all
  have o: "one_playing (step pf s e)" by (rule step_one_playing [OF op g])
  have "\<forall>k < length (sources (step pf s e)). status (sources (step pf s e) ! k) \<noteq> Stopped"
  proof (cases e)
    case (CallInit cb)
    then show ?thesis using st by (simp add: step_def init_device)
  next
    case (CallSpeak t v)
    show ?thesis
    proof (cases "speakSentence s t v")
      case (Inl x)
      then show ?thesis using st CallSpeak by (simp add: step_def)
    next
      case (Inr x)
      obtain s' r where "x = (s', r)" by (cases x)
      with Inr speakSentence_device [of s t v s' r] st show ?thesis using CallSpeak
        by (simp add: step_def)
    qed
  next
    case CallStop
    then show ?thesis using ns by simp
  next
    case (Message m)
    obtain s' j where d: "dispatch s m = (s', j)" by (cases "dispatch s m")
    from dispatch_device [OF d] st
    have st': "\<forall>k < length (sources s'). status (sources s' ! k) \<noteq> Stopped" by simp
    show ?thesis
    proof (cases j)
      case None
      then show ?thesis using d st' Message by (simp add: step_def on_message_def)
    next
      case (Some jb)
      then show ?thesis using d run_job_statuses [OF st', of pf jb] Message
        by (simp add: step_def on_message_def)
    qed
  next
    case (SourceEnded k)
    then show ?thesis using source_ended_statuses [OF st, of k] by (simp add: step_def)
  qed
  then show ?thesis using g o by (simp add: calm_def)
qed

lemma stop_free_current_only:
  "calm s \<Longrightarrow> CallStop \<notin> set es \<Longrightarrow> current_only pf s es"
proof (induction es arbitrary: s)
  case Nil
  show ?case by simp
next
  case (Cons e es)
  then have ne: "e \<noteq> CallStop" and rest: "CallStop \<notin> set es" by auto
  from step_calm [OF Cons.prems(1) ne, of pf]
  have g: "case e of
             SourceEnded k \<Rightarrow> fires s k \<longrightarrow> currentSource s = Some k \<or> currentSource s = None
           | _ \<Rightarrow> True"
    and c: "calm (step pf s e)" by simp_all
  show ?case using g Cons.IH [OF c rest] by simp
qed

lemma one_playing_without_stale_ended:
  "current_only pf initial es \<Longrightarrow> length (playing (run pf initial es)) \<le> 1"
proof -
  assume h: "current_only pf initial es"
  have "one_playing initial" by (simp add: one_playing_def initial_def)
  then have "one_playing (run pf initial es)" using h by (rule run_one_playing)
  then show ?thesis by (rule one_playing_bound)
qed

lemma one_playing_without_stop:
  "CallStop \<notin> set es \<Longrightarrow> length (playing (run pf initial es)) \<le> 1"
proof -
  assume h: "CallStop \<notin> set es"
  have "calm initial" by (simp add: calm_def one_playing_def initial_def)
  then have "current_only pf initial es" using h by (rule stop_free_current_only)
  then show ?thesis by (rule one_playing_without_stale_ended)
qed

lemma step_clears_isPlaying:
  "isPlaying s \<Longrightarrow> \<not> isPlaying (step pf s e) \<Longrightarrow> e = CallStop \<or> (\<exists>k. e = SourceEnded k)"
proof (cases e)
  case (CallInit cb)
  assume "isPlaying s" "\<not> isPlaying (step pf s e)"
  then show ?thesis using CallInit by (simp add: step_def init_device)
next
  case (CallSpeak t v)
  assume a: "isPlaying s" "\<not> isPlaying (step pf s e)"
  show ?thesis
  proof (cases "speakSentence s t v")
    case (Inl x)
    then show ?thesis using a CallSpeak by (simp add: step_def)
  next
    case (Inr x)
    obtain s' r where "x = (s', r)" by (cases x)
    with Inr speakSentence_device [of s t v s' r] a show ?thesis using CallSpeak
      by (simp add: step_def)
  qed
next
  case CallStop
  then show ?thesis by simp
next
  case (Message m)
  assume a: "isPlaying s" "\<not> isPlaying (step pf s e)"
  obtain s' j where d: "dispatch s m = (s', j)" by (cases "dispatch s m")
  from dispatch_device [OF d] a have p: "isPlaying s'" by simp
  have "isPlaying (on_message pf s m)"
  proof (cases j)
    case None
    then show ?thesis using d p by (simp add: on_message_def)
  next
    case (Some jb)
    have "isPlaying (run_job pf s' jb)" using p
      by (cases jb)
        (auto simp: run_job_def init_resume_def init_throw_def speakSentence_resume_def warn_def
          drainQueue_def Let_def split: outcome.splits option.splits sum.splits)
    then show ?thesis using d Some by (simp add: on_message_def)
  qed
  then show ?thesis using a Message by (simp add: step_def)
next
  case (SourceEnded k)
  then show ?thesis by simp
qed

subsection \<open>Awaited calls\<close>

lemma source_ended_frame:
  "nextId (source_ended s k) = nextId s" "pending (source_ended s k) = pending s"
  "ready (source_ended s k) = ready s"
  "started (source_ended s k) @ playbackQueue (source_ended s k) = started s @ playbackQueue s"
proof -
  let ?t = "s\<lparr>sources := (sources s)[k := (sources s ! k)\<lparr>status := Ended\<rparr>],
               isPlaying := False, currentSource := None\<rparr>"
  have m: "map buffer ((sources s)[k := (sources s ! k)\<lparr>status := Ended\<rparr>]) = map buffer (sources s)"
  proof (cases "k < length (sources s)")
    case True
    then show ?thesis by (simp add: map_update list_update_same_conv)
  next
    case False
    then have "length (sources s) \<le> k" by simp
    then show ?thesis by (simp only: list_update_beyond)
  qed
  have "started (drainQueue ?t) @ playbackQueue (drainQueue ?t) = started ?t @ playbackQueue ?t"
    by (rule drainQueue_conserves)
  also have "\<dots> = started s @ playbackQueue s"
    using m by (simp add: started_def)
  finally have q: "started (drainQueue ?t) @ playbackQueue (drainQueue ?t) =
                   started s @ playbackQueue s" .
  show "nextId (source_ended s k) = nextId s" "pending (source_ended s k) = pending s"
    "ready (source_ended s k) = ready s"
    by (simp_all add: source_ended_def onended_def drainQueue_frame ready_def)
  show "started (source_ended s k) @ playbackQueue (source_ended s k) = started s @ playbackQueue s"
    using q by (simp add: source_ended_def onended_def)
qed

lemma run_ended_frame:
  "nextId (run pf s (map SourceEnded ks)) = nextId s \<and>
   pending (run pf s (map SourceEnded ks)) = pending s \<and>
   ready (run pf s (map SourceEnded ks)) = ready s \<and>
   started (run pf s (map SourceEnded ks)) @ playbackQueue (run pf s (map SourceEnded ks))
     = started s @ playbackQueue s"
  by (induction ks arbitrary: s) (simp_all add: run_Nil run_Cons step_def source_ended_frame)

lemma speak_call_ready:
  "ready s \<Longrightarrow>
     ready (step pf s (CallSpeak t v)) \<and> nextId (step pf s (CallSpeak t v)) = Suc (nextId s) \<and>
     map_of (pending (step pf s (CallSpeak t v))) (nextId s) \<noteq> None \<and>
     started (step pf s (CallSpeak t v)) @ playbackQueue (step pf s (CallSpeak t v))
       = started s @ playbackQueue s"
  by (auto simp: ready_def step_def speakSentence_def generateAudio_def Let_def update_conv'
      started_def)

lemma reply_ready:
  assumes "ready s" "map_of (pending s) i \<noteq> None"
  shows "ready (step pf s (Message (reply_msg i r))) \<and>
     nextId (step pf s (Message (reply_msg i r))) = nextId s \<and>
     started (step pf s (Message (reply_msg i r))) @
     playbackQueue (step pf s (Message (reply_msg i r)))
       = started s @ playbackQueue s @ clip_of pf r"
proof -
  from assms obtain p ctx where p: "map_of (pending s) i = Some p"
    and w: "worker s = Some SteadyHandler"
    and c: "audioCtx s = Some ctx" and ini: "initialized s"
    by (auto simp: ready_def)
  show ?thesis
  proof (cases r)
    case (Failed err)
    then show ?thesis using p w c ini
      by (simp add: step_def on_message_def dispatch_def handleMessage_def run_job_def
          speakSentence_resume_def warn_def ready_def started_def)
  next
    case (Synthesized audio rate)
    let ?s1 = "s\<lparr>pending := AList.delete i (pending s),
                 promises := settle (promises s) p Fulfilled\<rparr>"
    have st: "step pf s (Message (reply_msg i r)) =
              run_job pf ?s1 (SpeakResume p (Resolved audio rate))"
      using Synthesized p w by (simp add: step_def on_message_def dispatch_def handleMessage_def)
    show ?thesis
    proof (cases "createBuffer pf 1 (length audio) rate")
      case (Inl err)
      then show ?thesis using st Synthesized c w ini
        by (simp add: run_job_def speakSentence_resume_def warn_def ready_def started_def Let_def)
    next
      case (Inr b)
      let ?s2 = "?s1\<lparr>playbackQueue := playbackQueue ?s1 @ [b\<lparr>channelData := audio\<rparr>]\<rparr>"
      have r: "step pf s (Message (reply_msg i r)) = drainQueue ?s2"
        using st Inr c by (simp add: run_job_def speakSentence_resume_def Let_def)
      have "started (drainQueue ?s2) @ playbackQueue (drainQueue ?s2) =
            started ?s2 @ playbackQueue ?s2"
        by (rule drainQueue_conserves)
      then show ?thesis using r Synthesized Inr c w ini
        by (simp add: drainQueue_frame ready_def started_def)
    qed
  qed
qed

lemma awaited_conserves:
  "ready s \<Longrightarrow>
     ready (run pf s (awaited (nextId s) rs)) \<and>
     started (run pf s (awaited (nextId s) rs)) @ playbackQueue (run pf s (awaited (nextId s) rs))
       = started s @ playbackQueue s @ clips pf rs"
proof (induction rs arbitrary: s)
  case Nil
  then show ?case by (simp add: run_Nil)
next
  case (Cons x rs)
  obtain before t v between r where x: "x = (before, t, v, between, r)" by (cases x) auto
  let ?s1 = "run pf s (map SourceEnded before)"
  let ?s2 = "step pf ?s1 (CallSpeak t v)"
  let ?s3 = "run pf ?s2 (map SourceEnded between)"
  let ?s4 = "step pf ?s3 (Message (reply_msg (nextId s) r))"
  have f1: "nextId ?s1 = nextId s" "ready ?s1"
    "started ?s1 @ playbackQueue ?s1 = started s @ playbackQueue s"
    using run_ended_frame [of pf s before] Cons.prems by simp_all
  have f2: "ready ?s2" "nextId ?s2 = Suc (nextId s)" "map_of (pending ?s2) (nextId s) \<noteq> None"
    "started ?s2 @ playbackQueue ?s2 = started s @ playbackQueue s"
    using speak_call_ready [OF f1(2), of pf t v] f1 by simp_all
  have f3: "ready ?s3" "nextId ?s3 = Suc (nextId s)" "map_of (pending ?s3) (nextId s) \<noteq> None"
    "started ?s3 @ playbackQueue ?s3 = started s @ playbackQueue s"
    using run_ended_frame [of pf ?s2 between] f2 by simp_all
  have f4: "ready ?s4" "nextId ?s4 = Suc (nextId s)"
    "started ?s4 @ playbackQueue ?s4 = started s @ playbackQueue s @ clip_of pf r"
    using reply_ready [OF f3(1) f3(3), of pf r] f3 by simp_all
  have unfold: "run pf s (awaited (nextId s) (x # rs)) = run pf ?s4 (awaited (nextId ?s4) rs)"
    using x f4(2) by (simp add: run_append run_Cons run_Nil)
  show ?case using Cons.IH [OF f4(1)] f4(3) unfold x by simp
qed

subsection \<open>The worker before the model is loaded\<close>

lemma worker_step_not_loaded:
  "tts w = None \<Longrightarrow> not_loaded [ev] \<Longrightarrow> tts (worker_step w ev) = None"
  by (auto simp: worker_step_def worker_onmessage_def worker_loaded_def not_loaded_def Let_def
      split: worker_event.splits to_worker.splits sum.splits)

lemma worker_run_not_loaded:
  "tts w = None \<Longrightarrow> not_loaded evs \<Longrightarrow> tts (worker_run w evs) = None"
proof (induction evs arbitrary: w)
  case Nil
  then show ?case by (simp add: worker_run_def)
next
  case (Cons ev evs)
  from Cons.prems(2) have a: "not_loaded [ev]" and b: "not_loaded evs"
    by (simp_all add: not_loaded_def)
  have "tts (worker_step w ev) = None" by (rule worker_step_not_loaded [OF Cons.prems(1) a])
  then have "tts (worker_run (worker_step w ev) evs) = None" using b by (rule Cons.IH)
  then show ?case by (simp add: worker_run_def)
qed

subsection \<open>Binary64 division\<close>

lemma pow2_powi: "pow2 k = 2 powi k"
  by (simp add: pow2_def power_int_def power_one_over inverse_eq_divide)

lemma pow2_pos: "0 < pow2 k"
  by (simp add: pow2_def)

lemma pow2_add: "pow2 (j + k) = pow2 j * pow2 k"
  by (simp add: pow2_powi power_int_add)

lemma pow2_nat: "pow2 (int n) = 2 ^ n"
  by (simp add: pow2_def)

lemma pow2_split: "pow2 k = 2 ^ nat k / 2 ^ nat (- k)"
  by (simp add: pow2_def)

lemma bits_bounds: "0 < n \<Longrightarrow> 2 ^ (bits n - 1) \<le> n \<and> n < 2 ^ bits n"
proof (induction n rule: bits.induct)
  case (1 n)
  show ?case
  proof (cases "n div 2 = 0")
    case True
    with "1.prems" have "n = 1" by (auto simp: div_eq_0_iff)
    then show ?thesis by (simp add: bits.simps)
  next
    case False
    then have p: "0 < n div 2" by simp
    from "1.IH" [OF _ p] "1.prems"
    have lo: "2 ^ (bits (n div 2) - 1) \<le> n div 2" and hi: "n div 2 < 2 ^ bits (n div 2)" by simp_all
    have b: "bits n = Suc (bits (n div 2))" using "1.prems" by (simp add: bits.simps [of n])
    have pos: "0 < bits (n div 2)" using p by (simp add: bits.simps [of "n div 2"])
    then have "(2::nat) ^ bits (n div 2) = 2 * 2 ^ (bits (n div 2) - 1)"
      by (cases "bits (n div 2)") simp_all
    then have "(2::nat) ^ (bits n - 1) \<le> 2 * (n div 2)" using lo b by simp
    moreover have "n < 2 * (n div 2) + 2" by presburger
    ultimately show ?thesis using hi b by simp
  qed
qed

lemma round_half_even_near:
  assumes "0 < d"
  shows "\<bar>rat_of_nat (round_half_even n d) - of_nat n / of_nat d\<bar> \<le> 1 / 2"
proof -
  let ?q = "n div d" and ?r = "n mod d"
  have n: "rat_of_nat n = of_nat ?q * of_nat d + of_nat ?r"
    by (metis div_mult_mod_eq of_nat_add of_nat_mult)
  have dpos: "0 < rat_of_nat d" using assms by simp
  have frac: "rat_of_nat n / of_nat d = of_nat ?q + of_nat ?r / of_nat d"
    using dpos by (simp add: n field_simps)
  have rlt: "rat_of_nat ?r < of_nat d" using assms by simp
  consider "2 * ?r < d" | "d < 2 * ?r" | "2 * ?r = d" by linarith
  then show ?thesis
  proof cases
    case 1
    then have "2 * rat_of_nat ?r < of_nat d" by (metis of_nat_less_iff of_nat_mult of_nat_numeral)
    then have "rat_of_nat ?r / of_nat d \<le> 1 / 2" using dpos by (simp add: field_simps)
    moreover have "0 \<le> rat_of_nat ?r / of_nat d" by simp
    ultimately show ?thesis using 1 by (simp add: round_half_even_def Let_def frac)
  next
    case 2
    then have "rat_of_nat d < 2 * of_nat ?r" by (metis of_nat_less_iff of_nat_mult of_nat_numeral)
    then have a: "1 / 2 \<le> rat_of_nat ?r / of_nat d" using dpos by (simp add: field_simps)
    have b: "rat_of_nat ?r / of_nat d \<le> 1" using rlt dpos by (simp add: field_simps)
    show ?thesis using 2 a b by (simp add: round_half_even_def Let_def frac)
  next
    case 3
    then have "2 * rat_of_nat ?r = of_nat d" by (metis of_nat_mult of_nat_numeral)
    then have a: "rat_of_nat ?r / of_nat d = 1 / 2" using dpos by (simp add: field_simps)
    show ?thesis using 3 a by (simp add: round_half_even_def Let_def frac)
  qed
qed


lemma pow2_mono: "j \<le> k \<Longrightarrow> pow2 j \<le> pow2 k"
  by (simp add: pow2_powi power_int_increasing)

lemma pow2_less_iff: "pow2 j < pow2 k \<longleftrightarrow> j < k"
proof
  assume "pow2 j < pow2 k"
  then show "j < k" using pow2_mono [of k j] by (cases "j < k") auto
next
  assume "j < k"
  then show "pow2 j < pow2 k" by (simp add: pow2_powi power_int_strict_increasing)
qed

lemma bits_pos: "0 < n \<Longrightarrow> 0 < bits n"
  by (simp add: bits.simps [of n])

lemma bits_rat:
  assumes "0 < n"
  shows "pow2 (int (bits n) - 1) \<le> of_nat n" and "of_nat n < pow2 (int (bits n))"
proof -
  from bits_bounds [OF assms] have lo: "2 ^ (bits n - 1) \<le> n" and hi: "n < 2 ^ bits n" by simp_all
  have e: "int (bits n) - 1 = int (bits n - 1)" using bits_pos [OF assms] by simp
  have "rat_of_nat (2 ^ (bits n - 1)) \<le> of_nat n" using lo by (simp only: of_nat_le_iff)
  then show "pow2 (int (bits n) - 1) \<le> of_nat n" by (simp add: e pow2_nat)
  have "rat_of_nat n < of_nat (2 ^ bits n)" using hi by (simp only: of_nat_less_iff)
  then show "of_nat n < pow2 (int (bits n))" by (simp add: pow2_nat)
qed

lemma quot_exponent_bounds:
  assumes "0 < a" "0 < b"
  shows "pow2 (quot_exponent a b) \<le> of_nat a / of_nat b"
    and "of_nat a / of_nat b < pow2 (quot_exponent a b + 1)"
proof -
  let ?d = "int (bits a) - int (bits b)"
  let ?x = "rat_of_nat a / of_nat b"
  have ap: "0 < rat_of_nat a" and bp: "0 < rat_of_nat b" using assms by simp_all
  have up: "?x < pow2 (?d + 1)"
  proof -
    have "rat_of_nat a < pow2 (int (bits a))" by (rule bits_rat(2) [OF assms(1)])
    also have "\<dots> = pow2 (?d + 1) * pow2 (int (bits b) - 1)"
      by (simp add: pow2_add [symmetric])
    also have "\<dots> \<le> pow2 (?d + 1) * of_nat b"
      using bits_rat(1) [OF assms(2)] pow2_pos [of "?d + 1"] by simp
    finally show ?thesis using bp by (simp add: field_simps)
  qed
  have low: "pow2 (?d - 1) < ?x"
  proof -
    have "pow2 (?d - 1) * rat_of_nat b < pow2 (?d - 1) * pow2 (int (bits b))"
      using bits_rat(2) [OF assms(2)] pow2_pos [of "?d - 1"] by simp
    also have "\<dots> = pow2 (int (bits a) - 1)" by (simp add: pow2_add [symmetric])
    also have "\<dots> \<le> of_nat a" by (rule bits_rat(1) [OF assms(1)])
    finally show ?thesis using bp by (simp add: field_simps)
  qed
  have c: "(b * 2 ^ nat ?d \<le> a * 2 ^ nat (- ?d)) \<longleftrightarrow> pow2 ?d \<le> ?x"
  proof -
    have "(b * 2 ^ nat ?d \<le> a * 2 ^ nat (- ?d)) \<longleftrightarrow>
          (rat_of_nat (b * 2 ^ nat ?d) \<le> rat_of_nat (a * 2 ^ nat (- ?d)))"
      by (simp only: of_nat_le_iff)
    also have "\<dots> \<longleftrightarrow> (rat_of_nat b * 2 ^ nat ?d \<le> rat_of_nat a * 2 ^ nat (- ?d))"
      by simp
    also have "\<dots> \<longleftrightarrow> (2 ^ nat ?d / 2 ^ nat (- ?d) \<le> ?x)"
      using bp by (simp add: field_simps)
    finally show ?thesis by (simp only: pow2_split [of "?d"])
  qed
  show "pow2 (quot_exponent a b) \<le> ?x"
    using c low by (auto simp: quot_exponent_def Let_def)
  show "?x < pow2 (quot_exponent a b + 1)"
    using c up by (auto simp: quot_exponent_def Let_def)
qed

lemma js_div_nearest:
  assumes "0 < a" "0 < b" "js_div a b = Val v"
  shows "\<bar>v - of_nat a / of_nat b\<bar> \<le> pow2 (max (quot_exponent a b) (- 1022) - 53)"
proof -
  let ?e = "max (quot_exponent a b) (- 1022)"
  let ?n = "a * 2 ^ nat (52 - ?e)" and ?d = "b * 2 ^ nat (?e - 52)"
  let ?m = "round_half_even ?n ?d"
  let ?u = "pow2 (?e - 52)"
  have v: "v = of_nat ?m * ?u"
    using assms by (simp add: js_div_def Let_def split: if_splits)
  have dpos: "0 < ?d" using assms(2) by simp
  have bp: "0 < rat_of_nat b" using assms(2) by simp
  have u: "?u = 2 ^ nat (?e - 52) / 2 ^ nat (52 - ?e)"
    using pow2_split [of "?e - 52"] by simp
  have q: "rat_of_nat ?n / of_nat ?d = (of_nat a / of_nat b) / ?u"
    by (simp add: u)
  have near: "\<bar>rat_of_nat ?m - of_nat ?n / of_nat ?d\<bar> \<le> 1 / 2"
    by (rule round_half_even_near [OF dpos])
  have "\<bar>rat_of_nat ?m - of_nat ?n / of_nat ?d\<bar> * ?u \<le> 1 / 2 * ?u"
    by (rule mult_right_mono [OF near]) (simp add: pow2_pos less_imp_le)
  then have h1: "\<bar>rat_of_nat ?m - (of_nat a / of_nat b) / ?u\<bar> * ?u \<le> 1 / 2 * ?u"
    unfolding q .
  have h2: "\<bar>rat_of_nat ?m - (of_nat a / of_nat b) / ?u\<bar> * ?u =
            \<bar>of_nat ?m * ?u - of_nat a / of_nat b\<bar>"
  proof -
    have "\<bar>rat_of_nat ?m - (of_nat a / of_nat b) / ?u\<bar> * ?u =
          \<bar>rat_of_nat ?m - (of_nat a / of_nat b) / ?u\<bar> * \<bar>?u\<bar>"
      using pow2_pos [of "?e - 52"] by simp
    also have "\<dots> = \<bar>(rat_of_nat ?m - (of_nat a / of_nat b) / ?u) * ?u\<bar>"
      by (simp only: abs_mult)
    also have "(rat_of_nat ?m - (of_nat a / of_nat b) / ?u) * ?u =
               of_nat ?m * ?u - of_nat a / of_nat b"
      using pow2_pos [of "?e - 52"] by (simp add: left_diff_distrib)
    finally show ?thesis .
  qed
  have h3: "1 / 2 * ?u = pow2 (?e - 53)"
  proof -
    have "pow2 (?e - 53 + 1) = pow2 (?e - 53) * pow2 1" by (rule pow2_add)
    moreover have "?e - 53 + 1 = ?e - 52" by simp
    moreover have "pow2 1 = 2" by (simp add: pow2_def)
    ultimately have "?u = pow2 (?e - 53) * 2" by simp
    then show ?thesis by simp
  qed
  from h1 have "\<bar>of_nat ?m * ?u - of_nat a / of_nat b\<bar> \<le> pow2 (?e - 53)"
    unfolding h2 h3 .
  then show ?thesis unfolding v .
qed

lemma js_div_whole:
  assumes "0 < b" "0 < k" "k < 2 ^ 53"
  shows "js_div (k * b) b = Val (of_nat k)"
proof -
  let ?e = "quot_exponent (k * b) b"
  have kb: "0 < k * b" using assms by simp
  have x: "rat_of_nat (k * b) / of_nat b = of_nat k" using assms(1) by simp
  from quot_exponent_bounds [OF kb assms(1)]
  have lo: "pow2 ?e \<le> of_nat k" and hi: "rat_of_nat k < pow2 (?e + 1)" by (simp_all only: x)
  have "pow2 0 \<le> rat_of_nat k" using assms(2) by (simp add: pow2_def)
  then have "pow2 0 < pow2 (?e + 1)" using hi by simp
  then have e0: "0 \<le> ?e" by (simp add: pow2_less_iff)
  have "rat_of_nat k < of_nat (2 ^ 53)" using assms(3) by (simp only: of_nat_less_iff)
  then have "rat_of_nat k < pow2 53" by (simp add: pow2_def)
  then have "pow2 ?e < pow2 53" using lo by simp
  then have e52: "?e \<le> 52" by (simp add: pow2_less_iff)
  have mx: "max ?e (- 1022) = ?e" using e0 by simp
  obtain j where j: "52 - ?e = int j" using e52 by (metis diff_ge_0_iff_ge nonneg_int_cases)
  then have n1: "nat (52 - ?e) = j" and n2: "nat (?e - 52) = 0" by simp_all
  have m: "round_half_even (k * b * 2 ^ j) b = k * 2 ^ j"
    using assms(1) by (simp add: round_half_even_def Let_def mult.commute mult.left_commute)
  have u: "pow2 (?e - 52) = 1 / 2 ^ j"
  proof -
    have "?e - 52 = - int j" using j by simp
    then show ?thesis by (simp add: pow2_def)
  qed
  have val: "rat_of_nat k * 2 ^ j * pow2 (?e - 52) = of_nat k" by (simp add: u)
  have "rat_of_nat k < pow2 1024" using \<open>rat_of_nat k < pow2 53\<close> pow2_mono [of 53 1024] by simp
  then have nov: "\<not> pow2 1024 \<le> rat_of_nat k" by simp
  show ?thesis
    unfolding js_div_def Let_def mx n1 n2
    using kb assms(1) nov by (simp add: m val)
qed

lemma js_div_samples:
  "js_div 24000 24000 = Val 1" "js_div 48000 24000 = Val 2"
  "js_div 1 24000 = Val (6148914691236517 / 2 ^ 67)"
  "js_div 1 10 = Val (3602879701896397 / 2 ^ 55)"
  "js_div 1 3 = Val (6004799503160661 / 2 ^ 54)"
  "js_div 12345 24000 = Val (2316539058328699 / 2 ^ 52)"
  "js_div 9007199254740993 1 = Val 9007199254740992"
  "js_div 9007199254740995 1 = Val 9007199254740996"
  "js_div 0 5 = Val 0" "js_div 0 0 = NaN" "js_div 7 0 = Infinity"
  by (simp_all add: js_div_eval)

section \<open>The claims\<close>

subsection \<open>Worker boundary\<close>

text \<open>
  C5. A \<^verbatim>\<open>generate\<close> message that the worker handles while the engine is not loaded
  (\<^verbatim>\<open>tts\<close> is still null) is answered by the worker itself with \<^verbatim>\<open>generate_error\<close> for the
  id of that message, carrying the error text "TTS not initialized". That post is the only
  effect: the engine is not called and the worker state does not change. The engine is not
  loaded in any worker state reached from start-up by events among which no load of the
  model has succeeded, whatever messages were received: so every \<^verbatim>\<open>generate\<close> that arrives
  before initialisation has completed is rejected in this way.
\<close>

theorem worker_rejects_generate_before_init:
  "(tts w = None \<longrightarrow>
      worker_onmessage w (Generate i text voiceId speed) =
        (w, [PostMessage (GenerateError i ''TTS not initialized'')])) \<and>
   (not_loaded evs \<longrightarrow>
      worker_onmessage (worker_run worker_initial evs) (Generate i text voiceId speed) =
        (worker_run worker_initial evs, [PostMessage (GenerateError i ''TTS not initialized'')]))"
proof -
  have a: "worker_onmessage v (Generate i text voiceId speed) =
        (v, [PostMessage (GenerateError i ''TTS not initialized'')])" if "tts v = None" for v
    using that by (simp add: worker_onmessage_def)
  have "tts worker_initial = None" by (simp add: worker_initial_def)
  then have "not_loaded evs \<longrightarrow> tts (worker_run worker_initial evs) = None"
    using worker_run_not_loaded by blast
  then show ?thesis using a by blast
qed

theorem worker_rejects_generate_before_init_witness:
  "tts worker_initial = None \<and>
   worker_onmessage worker_initial (Generate 7 ''Hello'' ''voiceA'' None) =
     (worker_initial, [PostMessage (GenerateError 7 ''TTS not initialized'')]) \<and>
   not_loaded [Receive Init, Receive (Generate 6 ''Hi'' ''voiceA'' None), Loaded (Inl ''no model'')] \<and>
   worker_onmessage
       (worker_run worker_initial
          [Receive Init, Receive (Generate 6 ''Hi'' ''voiceA'' None), Loaded (Inl ''no model'')])
       (Generate 7 ''Hello'' ''voiceA'' None) =
     (worker_initial, [PostMessage (GenerateError 7 ''TTS not initialized'')])"
proof -
  let ?evs = "[Receive Init, Receive (Generate 6 ''Hi'' ''voiceA'' None), Loaded (Inl ''no model'')]"
  have h1: "tts worker_initial = None" by (simp add: worker_initial_def)
  have h2: "not_loaded ?evs" by (simp add: not_loaded_def)
  have r: "worker_run worker_initial ?evs = worker_initial"
    by (simp add: worker_run_def worker_step_def worker_onmessage_def worker_loaded_def
        worker_initial_def)
  from worker_rejects_generate_before_init
         [of worker_initial 7 "''Hello''" "''voiceA''" None ?evs] h1 h2
  have "worker_onmessage worker_initial (Generate 7 ''Hello'' ''voiceA'' None) =
          (worker_initial, [PostMessage (GenerateError 7 ''TTS not initialized'')])"
    and "worker_onmessage (worker_run worker_initial ?evs) (Generate 7 ''Hello'' ''voiceA'' None) =
          (worker_run worker_initial ?evs, [PostMessage (GenerateError 7 ''TTS not initialized'')])"
    by blast+
  then show ?thesis using h1 h2 unfolding r by blast
qed

subsection \<open>Request/response correlation\<close>

text \<open>
  C4. The steady-state handler \<^verbatim>\<open>handleMessage\<close>. A \<^verbatim>\<open>generate_done\<close> whose id is in the
  correlation table removes that entry and fulfils the promise stored under it with the
  audio and sample rate of the message. A \<^verbatim>\<open>generate_error\<close> whose id is in the table removes
  the entry and rejects the stored promise with the worker's error. Either message with an
  id that is not in the table changes nothing and settles nothing. In every case the table
  has no entry for the id afterwards, and the entries of all other ids are untouched.
\<close>

theorem handleMessage_correlation:
  "(map_of (pending s) i = Some req \<longrightarrow>
      handleMessage s (GenerateDone i audio rate) =
        (s\<lparr> pending := AList.delete i (pending s),
            promises := settle (promises s) req Fulfilled \<rparr>,
         Some (SpeakResume req (Resolved audio rate))) \<and>
      handleMessage s (GenerateError i err) =
        (s\<lparr> pending := AList.delete i (pending s),
            promises := settle (promises s) req (Rejected (Error err)) \<rparr>,
         Some (SpeakResume req (Threw (Error err))))) \<and>
   (map_of (pending s) i = None \<longrightarrow>
      handleMessage s (GenerateDone i audio rate) = (s, None) \<and>
      handleMessage s (GenerateError i err) = (s, None)) \<and>
   map_of (pending (fst (handleMessage s (GenerateDone i audio rate)))) =
     (map_of (pending s))(i := None) \<and>
   map_of (pending (fst (handleMessage s (GenerateError i err)))) =
     (map_of (pending s))(i := None)"
  by (cases "map_of (pending s) i") (auto simp: handleMessage_def delete_conv')

theorem handleMessage_correlation_witness:
  "map_of (pending (initial\<lparr> pending := [(3, 0), (4, 1)], promises := [Pending, Pending] \<rparr>)) 3
     = Some 0 \<and>
   map_of (pending (initial\<lparr> pending := [(3, 0), (4, 1)], promises := [Pending, Pending] \<rparr>)) 9
     = None \<and>
   handleMessage (initial\<lparr> pending := [(3, 0), (4, 1)], promises := [Pending, Pending] \<rparr>)
       (GenerateDone 3 [0, 1] 24000) =
     (initial\<lparr> pending := [(4, 1)], promises := [Fulfilled, Pending] \<rparr>,
      Some (SpeakResume 0 (Resolved [0, 1] 24000))) \<and>
   handleMessage (initial\<lparr> pending := [(3, 0), (4, 1)], promises := [Pending, Pending] \<rparr>)
       (GenerateError 3 ''boom'') =
     (initial\<lparr> pending := [(4, 1)], promises := [Rejected (Error ''boom''), Pending] \<rparr>,
      Some (SpeakResume 0 (Threw (Error ''boom'')))) \<and>
   handleMessage (initial\<lparr> pending := [(3, 0), (4, 1)], promises := [Pending, Pending] \<rparr>)
       (GenerateDone 9 [0, 1] 24000) =
     (initial\<lparr> pending := [(3, 0), (4, 1)], promises := [Pending, Pending] \<rparr>, None)"
  using handleMessage_correlation
          [of "initial\<lparr> pending := [(3, 0), (4, 1)], promises := [Pending, Pending] \<rparr>"
              3 0 "[0, 1]" 24000 "''boom''"]
        handleMessage_correlation
          [of "initial\<lparr> pending := [(3, 0), (4, 1)], promises := [Pending, Pending] \<rparr>"
              9 0 "[0, 1]" 24000 "''boom''"]
  by (simp add: initial_def settle_def is_pending_def AList.delete_eq)

text \<open>
  C7. The ids of the \<^verbatim>\<open>generate\<close> messages that a manager has posted, in posting order, are
  exactly \<open>0, 1, \<dots>, nextId - 1\<close> in every state reachable from a fresh manager, for runs of any
  length: they start at 0, increase strictly and never repeat. (The counter is counted in
  natural numbers; the JavaScript number that holds it is exact for every count below
  \<open>2 ^ 53\<close>.) Each call of
  \<^verbatim>\<open>generateAudio\<close> on a manager with a worker takes the current counter value as its id,
  registers the pending promise under it, posts the message with it and increments the
  counter; without a worker it allocates nothing.
\<close>

theorem request_ids_strictly_increasing:
  "posted_ids (effects (run pf initial es)) = [0 ..< nextId (run pf initial es)] \<and>
   sorted_wrt (<) (posted_ids (effects (run pf initial es))) \<and>
   distinct (posted_ids (effects (run pf initial es))) \<and>
   (case generateAudio s text voiceId of
      Inl err \<Rightarrow> worker s = None
    | Inr (s', i, p) \<Rightarrow>
        i = nextId s \<and> nextId s' = Suc i \<and> map_of (pending s') i = Some p \<and>
        effects s' = effects s @ [PostToWorker (Generate i text voiceId None)])"
proof -
  have "posted_ids (effects (run pf initial es)) = [0 ..< nextId (run pf initial es)]"
    using run_ids [of pf initial es] by (simp add: initial_def posted_ids_def)
  moreover have "case generateAudio s text voiceId of
      Inl err \<Rightarrow> worker s = None
    | Inr (s', i, p) \<Rightarrow>
        i = nextId s \<and> nextId s' = Suc i \<and> map_of (pending s') i = Some p \<and>
        effects s' = effects s @ [PostToWorker (Generate i text voiceId None)]"
    by (simp add: generateAudio_def Let_def update_conv')
  ultimately show ?thesis by simp
qed

theorem request_ids_strictly_increasing_witness:
  "posted_ids (effects (run web_audio initial
      [CallInit None, Message InitDone, CallSpeak ''A'' ''v'', CallSpeak ''B'' ''v'',
       Message (GenerateError 0 ''boom''), CallSpeak ''C'' ''v''])) = [0, 1, 2] \<and>
   nextId (run web_audio initial
      [CallInit None, Message InitDone, CallSpeak ''A'' ''v'', CallSpeak ''B'' ''v'',
       Message (GenerateError 0 ''boom''), CallSpeak ''C'' ''v'']) = 3"
  using request_ids_strictly_increasing
          [of web_audio
              "[CallInit None, Message InitDone, CallSpeak ''A'' ''v'', CallSpeak ''B'' ''v'',
                Message (GenerateError 0 ''boom''), CallSpeak ''C'' ''v'']"
              initial "''A''" "''v''"]
  by (simp add: eval_defs upt_rec)

subsection \<open>Playback scheduler\<close>

text \<open>
  C8. \<^verbatim>\<open>stopPlayback\<close> returns normally from every state and on every platform, also one
  whose \<^verbatim>\<open>stop()\<close> raises on a node that is no longer playing. Afterwards the queue is
  empty, \<^verbatim>\<open>currentSource\<close> is null and \<^verbatim>\<open>isPlaying\<close> is false. It calls \<^verbatim>\<open>stop()\<close> exactly once
  when a current source is held and not at all otherwise, and the source it held is not
  audible afterwards. A second call right after the first returns normally as well and
  changes nothing.
\<close>

theorem stopPlayback_total:
  "\<exists>s'. stopPlayback pf s = Inr s' \<and>
        playbackQueue s' = [] \<and> currentSource s' = None \<and> \<not> isPlaying s' \<and>
        effects s' = effects s @ (case currentSource s of None \<Rightarrow> [] | Some k \<Rightarrow> [StopCall k]) \<and>
        (case currentSource s of
           None \<Rightarrow> sources s' = sources s
         | Some k \<Rightarrow> length (sources s') = length (sources s) \<and>
                      (if k < length (sources s) then status (sources s' ! k) \<noteq> Playing
                       else sources s' = sources s)) \<and>
        stopPlayback pf s' = Inr s'"
  by (cases "currentSource s")
    (auto simp: stopPlayback_def stop_source_def Let_def split: sum.splits)

theorem stopPlayback_total_witness:
  "\<exists>s'. stopPlayback (web_audio\<lparr> strict_stop := True \<rparr>)
          (run web_audio initial
             [CallInit None, Message InitDone,
              CallSpeak ''A'' ''v'', Message (GenerateDone 0 [0] 24000),
              CallSpeak ''B'' ''v'', Message (GenerateDone 1 [0, 0] 24000)]) = Inr s' \<and>
        playbackQueue s' = [] \<and> currentSource s' = None \<and> \<not> isPlaying s' \<and>
        map status (sources s') = [Stopped] \<and>
        filter (\<lambda>e. case e of StopCall k \<Rightarrow> True | _ \<Rightarrow> False) (effects s') = [StopCall 0] \<and>
        stopPlayback (web_audio\<lparr> strict_stop := True \<rparr>) s' = Inr s'"
  using stopPlayback_total
          [of "web_audio\<lparr> strict_stop := True \<rparr>"
              "run web_audio initial
                 [CallInit None, Message InitDone,
                  CallSpeak ''A'' ''v'', Message (GenerateDone 0 [0] 24000),
                  CallSpeak ''B'' ''v'', Message (GenerateDone 1 [0, 0] 24000)]"]
  by (simp add: eval_defs)

text \<open>
  C1. \<^verbatim>\<open>drainQueue\<close> is first-in first-out. When it acts (nothing is playing, a device exists,
  the queue is not empty) it removes the head of the queue and starts exactly that clip on
  the device; in every state the clips started so far followed by the queue are the same
  sequence before and after it. For calls of \<^verbatim>\<open>speakSentence\<close> that are each awaited before the
  next is issued, starting from a ready manager and with \<^verbatim>\<open>ended\<close> events of the device
  arriving at any point, the clips started on the device followed by those still queued are
  the earlier ones followed by the clips of the calls in call order: the device starts them
  in call order.
\<close>

theorem drainQueue_fifo:
  "(\<not> isPlaying s \<and> audioCtx s \<noteq> None \<and> playbackQueue s = b # rest \<longrightarrow>
      playbackQueue (drainQueue s) = rest \<and>
      sources (drainQueue s) = sources s @ [\<lparr> buffer = b, status = Playing \<rparr>]) \<and>
   started (drainQueue s) @ playbackQueue (drainQueue s) = started s @ playbackQueue s \<and>
   (ready t \<longrightarrow>
      started (run pf t (awaited (nextId t) rs @ map SourceEnded ks)) @
      playbackQueue (run pf t (awaited (nextId t) rs @ map SourceEnded ks))
        = started t @ playbackQueue t @ clips pf rs)"
proof -
  have a: "\<not> isPlaying s \<and> audioCtx s \<noteq> None \<and> playbackQueue s = b # rest \<longrightarrow>
      playbackQueue (drainQueue s) = rest \<and>
      sources (drainQueue s) = sources s @ [\<lparr> buffer = b, status = Playing \<rparr>]"
    by (simp add: drainQueue_def)
  have c: "started (run pf t (awaited (nextId t) rs @ map SourceEnded ks)) @
      playbackQueue (run pf t (awaited (nextId t) rs @ map SourceEnded ks))
        = started t @ playbackQueue t @ clips pf rs" if r: "ready t"
  proof -
    let ?u = "run pf t (awaited (nextId t) rs)"
    have "started (run pf ?u (map SourceEnded ks)) @ playbackQueue (run pf ?u (map SourceEnded ks))
            = started ?u @ playbackQueue ?u"
      using run_ended_frame [of pf ?u ks] by simp
    then show ?thesis using awaited_conserves [OF r, of pf rs] by (simp add: run_append)
  qed
  show ?thesis using a c drainQueue_conserves [of s] by blast
qed

theorem drainQueue_fifo_witness:
  "\<not> isPlaying (run web_audio initial [CallInit None, Message InitDone]) \<and>
   audioCtx (run web_audio initial [CallInit None, Message InitDone]) \<noteq> None \<and>
   playbackQueue (drainQueue (run web_audio initial [CallInit None, Message InitDone]
       \<lparr> playbackQueue :=
           [\<lparr> numberOfChannels = 1, frames = 1, sampleRate = 24000, channelData = [1] \<rparr>,
            \<lparr> numberOfChannels = 1, frames = 2, sampleRate = 24000, channelData = [2, 2] \<rparr>] \<rparr>))
     = [\<lparr> numberOfChannels = 1, frames = 2, sampleRate = 24000, channelData = [2, 2] \<rparr>] \<and>
   sources (drainQueue (run web_audio initial [CallInit None, Message InitDone]
       \<lparr> playbackQueue :=
           [\<lparr> numberOfChannels = 1, frames = 1, sampleRate = 24000, channelData = [1] \<rparr>,
            \<lparr> numberOfChannels = 1, frames = 2, sampleRate = 24000, channelData = [2, 2] \<rparr>] \<rparr>))
     = [\<lparr> buffer = \<lparr> numberOfChannels = 1, frames = 1, sampleRate = 24000, channelData = [1] \<rparr>,
          status = Playing \<rparr>] \<and>
   ready (run web_audio initial [CallInit None, Message InitDone]) \<and>
   started (run web_audio (run web_audio initial [CallInit None, Message InitDone])
     (awaited 0
        [([], ''A'', ''v'', [], Synthesized [1] 24000),
         ([], ''B'', ''v'', [], Synthesized [2, 2] 24000),
         ([0], ''C'', ''v'', [], Synthesized [3, 3, 3] 24000)] @ map SourceEnded [1])) @
   playbackQueue (run web_audio (run web_audio initial [CallInit None, Message InitDone])
     (awaited 0
        [([], ''A'', ''v'', [], Synthesized [1] 24000),
         ([], ''B'', ''v'', [], Synthesized [2, 2] 24000),
         ([0], ''C'', ''v'', [], Synthesized [3, 3, 3] 24000)] @ map SourceEnded [1])) =
     [\<lparr> numberOfChannels = 1, frames = 1, sampleRate = 24000, channelData = [1] \<rparr>,
      \<lparr> numberOfChannels = 1, frames = 2, sampleRate = 24000, channelData = [2, 2] \<rparr>,
      \<lparr> numberOfChannels = 1, frames = 3, sampleRate = 24000, channelData = [3, 3, 3] \<rparr>] \<and>
   playbackQueue (run web_audio (run web_audio initial [CallInit None, Message InitDone])
     (awaited 0
        [([], ''A'', ''v'', [], Synthesized [1] 24000),
         ([], ''B'', ''v'', [], Synthesized [2, 2] 24000),
         ([0], ''C'', ''v'', [], Synthesized [3, 3, 3] 24000)] @ map SourceEnded [1])) = []"
proof -
  let ?t = "run web_audio initial [CallInit None, Message InitDone]"
  let ?rs = "[([], ''A'', ''v'', [], Synthesized [1] 24000),
              ([], ''B'', ''v'', [], Synthesized [2, 2] 24000),
              ([0], ''C'', ''v'', [], Synthesized [3, 3, 3] 24000)]"
  have h: "ready ?t" by (simp add: ready_def eval_defs)
  have n: "nextId ?t = 0" by (simp add: eval_defs)
  have k: "started ?t @ playbackQueue ?t @ clips web_audio ?rs =
     [\<lparr> numberOfChannels = 1, frames = 1, sampleRate = 24000, channelData = [1] \<rparr>,
      \<lparr> numberOfChannels = 1, frames = 2, sampleRate = 24000, channelData = [2, 2] \<rparr>,
      \<lparr> numberOfChannels = 1, frames = 3, sampleRate = 24000, channelData = [3, 3, 3] \<rparr>]"
    by (simp add: started_def eval_defs)
  have q: "playbackQueue (run web_audio ?t (awaited 0 ?rs @ map SourceEnded [1])) = []"
    by (simp add: eval_defs)
  let ?A = "\<lparr> numberOfChannels = 1, frames = 1, sampleRate = 24000, channelData = [1] \<rparr>"
  let ?B = "\<lparr> numberOfChannels = 1, frames = 2, sampleRate = 24000, channelData = [2, 2] \<rparr>"
  let ?v = "?t\<lparr> playbackQueue := [?A, ?B] \<rparr>"
  have g: "\<not> isPlaying ?t \<and> audioCtx ?t \<noteq> None" by (simp add: eval_defs)
  have g': "\<not> isPlaying ?v \<and> audioCtx ?v \<noteq> None \<and> playbackQueue ?v = ?A # [?B]"
    using g by simp
  have e: "sources ?v = []" by (simp add: eval_defs)
  from drainQueue_fifo [of ?v ?A "[?B]" ?t web_audio ?rs "[1]"] h g'
  have "started (run web_audio ?t (awaited (nextId ?t) ?rs @ map SourceEnded [1])) @
      playbackQueue (run web_audio ?t (awaited (nextId ?t) ?rs @ map SourceEnded [1]))
        = started ?t @ playbackQueue ?t @ clips web_audio ?rs"
    and "playbackQueue (drainQueue ?v) = [?B]"
    and "sources (drainQueue ?v) = sources ?v @ [\<lparr> buffer = ?A, status = Playing \<rparr>]"
    by blast+
  then show ?thesis using h q g unfolding n k e by simp
qed

text \<open>
  C2. The claim: in every reachable state at most one clip is playing on the device, because
  \<^verbatim>\<open>drainQueue\<close> does nothing while \<^verbatim>\<open>isPlaying\<close> is true and only the completion callback of
  the current clip clears \<^verbatim>\<open>isPlaying\<close>. The code enforces this with the \<^verbatim>\<open>isPlaying\<close> guard
  but breaks it: the \<^verbatim>\<open>onended\<close> callback does not check that its source is still the current
  one, and a source that was stopped with \<^verbatim>\<open>stop()\<close> still dispatches its \<^verbatim>\<open>ended\<close> event
  afterwards. In the run below clip A (one second) is playing and the requests for B and C
  are in flight when \<^verbatim>\<open>stopPlayback\<close> is called. B (two seconds) arrives and starts. Then A's
  \<^verbatim>\<open>ended\<close> event fires: its callback clears \<^verbatim>\<open>isPlaying\<close> and \<^verbatim>\<open>currentSource\<close> although B is
  playing. C arrives and is started at once: two sources are playing together. The same
  events occur when A has just played to its end and its \<^verbatim>\<open>ended\<close> event is still queued at
  the moment \<^verbatim>\<open>stopPlayback\<close> is called. (Where no \<^verbatim>\<open>ended\<close> event is stale, and so in every
  run without \<^verbatim>\<open>stopPlayback\<close>, at most one clip is playing: \<open>one_playing_without_stale_ended\<close>
  and \<open>one_playing_without_stop\<close>.)
\<close>

theorem two_clips_playing:
  "map status (sources (run web_audio initial
     [CallInit None, Message InitDone,
      CallSpeak ''A'' ''v'', Message (GenerateDone 0 (replicate 24000 0) 24000),
      CallSpeak ''B'' ''v'', CallSpeak ''C'' ''v'',
      CallStop,
      Message (GenerateDone 1 (replicate 48000 0) 24000),
      SourceEnded 0,
      Message (GenerateDone 2 (replicate 72000 0) 24000)])) = [Ended, Playing, Playing] \<and>
   length (playing (run web_audio initial
     [CallInit None, Message InitDone,
      CallSpeak ''A'' ''v'', Message (GenerateDone 0 (replicate 24000 0) 24000),
      CallSpeak ''B'' ''v'', CallSpeak ''C'' ''v'',
      CallStop,
      Message (GenerateDone 1 (replicate 48000 0) 24000),
      SourceEnded 0,
      Message (GenerateDone 2 (replicate 72000 0) 24000)])) = 2"
  by (simp add: playing_def eval_defs)

subsection \<open>Speak pipeline\<close>

text \<open>
  C3. \<^verbatim>\<open>speakSentence\<close> never throws: both its synchronous part and its continuation return
  normally for every state, text, voice and outcome of the awaited synthesis. When no audio
  context exists or the manager is not initialised it returns 0 at once and leaves the
  state as it was. When \<^verbatim>\<open>generateAudio\<close> fails (the promise it returns is rejected at once
  because no worker exists, or is rejected later by a \<^verbatim>\<open>generate_error\<close> from the worker) or
  the device refuses the result, a warning is logged and 0 is returned.
\<close>

theorem speakSentence_never_throws:
  "(\<exists>r. speakSentence s text voiceId = Inr r) \<and>
   (\<exists>r. speakSentence_resume pf s out = Inr r) \<and>
   (audioCtx s = None \<or> \<not> initialized s \<longrightarrow>
      speakSentence s text voiceId = Inr (s, Returned (Val 0))) \<and>
   (audioCtx s \<noteq> None \<and> initialized s \<and> generateAudio s text voiceId = Inl err \<longrightarrow>
      speakSentence s text voiceId = Inr (warn s err, Returned (Val 0))) \<and>
   speakSentence_resume pf s (Threw err) = Inr (warn s err, Val 0) \<and>
   (audioCtx s \<noteq> None \<and> createBuffer pf 1 (length audio) rate = Inl err \<longrightarrow>
      speakSentence_resume pf s (Resolved audio rate) = Inr (warn s err, Val 0)) \<and>
   (worker s = Some SteadyHandler \<and> map_of (pending s) i \<noteq> None \<longrightarrow>
      effects (step pf s (Message (GenerateError i msg))) = effects s @ [Warn (Error msg)])"
proof -
  have a: "\<exists>r. speakSentence s text voiceId = Inr r"
    by (simp add: speakSentence_def split: sum.splits prod.splits)
  have b: "\<exists>r. speakSentence_resume pf s out = Inr r"
    by (simp add: speakSentence_resume_def Let_def split: outcome.splits option.splits sum.splits)
  have c: "audioCtx s = None \<or> \<not> initialized s \<longrightarrow>
      speakSentence s text voiceId = Inr (s, Returned (Val 0))"
    by (simp add: speakSentence_def)
  have d: "audioCtx s \<noteq> None \<and> initialized s \<and> generateAudio s text voiceId = Inl err \<longrightarrow>
      speakSentence s text voiceId = Inr (warn s err, Returned (Val 0))"
    by (simp add: speakSentence_def)
  have e: "speakSentence_resume pf s (Threw err) = Inr (warn s err, Val 0)"
    by (simp add: speakSentence_resume_def)
  have f: "audioCtx s \<noteq> None \<and> createBuffer pf 1 (length audio) rate = Inl err \<longrightarrow>
      speakSentence_resume pf s (Resolved audio rate) = Inr (warn s err, Val 0)"
    by (auto simp: speakSentence_resume_def Let_def)
  have g: "worker s = Some SteadyHandler \<and> map_of (pending s) i \<noteq> None \<longrightarrow>
      effects (step pf s (Message (GenerateError i msg))) = effects s @ [Warn (Error msg)]"
    by (auto simp: step_def on_message_def dispatch_def handleMessage_def run_job_def
        speakSentence_resume_def warn_def)
  show ?thesis using a b c d e f g by blast
qed

theorem speakSentence_never_throws_witness:
  "audioCtx initial = None \<and>
   speakSentence initial ''Hello'' ''voiceA'' = Inr (initial, Returned (Val 0)) \<and>
   generateAudio (initial\<lparr> audioCtx := Some 24000, initialized := True \<rparr>) ''Hello'' ''voiceA''
     = Inl (Error ''TTS worker not initialized'') \<and>
   speakSentence (initial\<lparr> audioCtx := Some 24000, initialized := True \<rparr>) ''Hello'' ''voiceA''
     = Inr (warn (initial\<lparr> audioCtx := Some 24000, initialized := True \<rparr>)
              (Error ''TTS worker not initialized''), Returned (Val 0)) \<and>
   createBuffer web_audio 1 (length ([] :: samples)) 24000 = Inl NotSupportedError \<and>
   speakSentence_resume web_audio
       (run web_audio initial [CallInit None, Message InitDone, CallSpeak ''Hello'' ''voiceA''])
       (Resolved [] 24000)
     = Inr (warn (run web_audio initial
                    [CallInit None, Message InitDone, CallSpeak ''Hello'' ''voiceA''])
              NotSupportedError, Val 0) \<and>
   effects (step web_audio
       (run web_audio initial [CallInit None, Message InitDone, CallSpeak ''Hello'' ''voiceA''])
       (Message (GenerateError 0 ''boom'')))
     = effects (run web_audio initial
                  [CallInit None, Message InitDone, CallSpeak ''Hello'' ''voiceA''])
       @ [Warn (Error ''boom'')]"
proof -
  let ?u = "initial\<lparr> audioCtx := Some 24000, initialized := True \<rparr>"
  let ?r = "run web_audio initial [CallInit None, Message InitDone, CallSpeak ''Hello'' ''voiceA'']"
  have h1: "audioCtx initial = None" by (simp add: initial_def)
  have h2: "audioCtx ?u \<noteq> None \<and> initialized ?u \<and>
            generateAudio ?u ''Hello'' ''voiceA'' = Inl (Error ''TTS worker not initialized'')"
    by (simp add: initial_def generateAudio_def)
  have h3: "audioCtx ?r \<noteq> None \<and>
            createBuffer web_audio 1 (length ([] :: samples)) 24000 = Inl NotSupportedError"
    by (simp add: eval_defs)
  have h4: "worker ?r = Some SteadyHandler \<and> map_of (pending ?r) 0 \<noteq> None"
    by (simp add: eval_defs)
  have c1: "speakSentence initial ''Hello'' ''voiceA'' = Inr (initial, Returned (Val 0))"
    using speakSentence_never_throws [of initial "''Hello''" "''voiceA''"] h1 by blast
  have c2: "speakSentence ?u ''Hello'' ''voiceA''
     = Inr (warn ?u (Error ''TTS worker not initialized''), Returned (Val 0))"
    using speakSentence_never_throws
            [of ?u "''Hello''" "''voiceA''" web_audio _ "Error ''TTS worker not initialized''"]
      h2 by blast
  have c3: "speakSentence_resume web_audio ?r (Resolved [] 24000)
     = Inr (warn ?r NotSupportedError, Val 0)"
    using speakSentence_never_throws
            [of ?r "''Hello''" "''voiceA''" web_audio _ NotSupportedError "[]" 24000]
      h3 by blast
  have c4: "effects (step web_audio ?r (Message (GenerateError 0 ''boom'')))
     = effects ?r @ [Warn (Error ''boom'')]"
    using speakSentence_never_throws
            [of ?r "''Hello''" "''voiceA''" web_audio _ _ _ _ 0 "''boom''"]
      h4 by blast
  show ?thesis using h1 h2 h3 c1 c2 c3 c4 by blast
qed



subsection \<open>Initialisation\<close>

text \<open>
  C6. \<^verbatim>\<open>init\<close> on an initialised manager returns at once and changes nothing. \<^verbatim>\<open>init\<close> on a
  manager that is not initialised but has an initialisation promise hands that promise to
  its caller (the caller's result follows it) and changes nothing: no worker is created and
  no message posted. In every run from a
  fresh manager, whatever the events, the number of workers created is 0 before the first
  call of \<^verbatim>\<open>init\<close> and 1 from then on, and any two calls of \<^verbatim>\<open>init\<close> that return a promise
  return the same one.
\<close>

theorem init_idempotent_coalescing:
  "(initialized s \<longrightarrow> init s cb = (s, Immediate)) \<and>
   (\<not> initialized s \<and> initPromise s = Some p \<longrightarrow> init s cb = (s, Follows p)) \<and>
   spawned (effects (run pf initial es)) \<le> 1 \<and>
   (CallInit cb \<in> set es \<longrightarrow> spawned (effects (run pf initial es)) = 1) \<and>
   (snd (init (run pf initial es) cb) = Follows q \<and>
    snd (init (run pf initial (es @ CallInit cb # es')) cb') = Follows q' \<longrightarrow> q = q')"
proof -
  have a: "initialized s \<longrightarrow> init s cb = (s, Immediate)"
    by (simp add: init_def)
  have b: "\<not> initialized s \<and> initPromise s = Some p \<longrightarrow> init s cb = (s, Follows p)"
    by (simp add: init_def)
  have i: "spawn_inv initial" by (simp add: spawn_inv_def initial_def spawned_def)
  have inv: "spawn_inv (run pf initial es)" by (rule run_spawn_inv [OF i])
  have c: "spawned (effects (run pf initial es)) \<le> 1"
    using inv by (auto simp: spawn_inv_def split: option.splits)
  have d: "CallInit cb \<in> set es \<longrightarrow> spawned (effects (run pf initial es)) = 1"
    using inv run_init_called [OF i, of cb es pf] by (auto simp: spawn_inv_def split: option.splits)
  have e: "q = q'"
    if f: "snd (init (run pf initial es) cb) = Follows q"
      and g: "snd (init (run pf initial (es @ CallInit cb # es')) cb') = Follows q'"
  proof -
    let ?s1 = "run pf initial es"
    let ?s2 = "run pf initial (es @ CallInit cb # es')"
    have "initPromise (step pf ?s1 (CallInit cb)) = Some q"
      using init_follows [OF f] by (simp add: step_def)
    then have k: "initPromise ?s2 = Some q"
      using run_initPromise by (simp add: run_append run_Cons)
    show ?thesis using g k by (auto simp: init_def split: if_splits)
  qed
  show ?thesis using a b c d e by blast
qed

theorem init_idempotent_coalescing_witness:
  "initialized (run web_audio initial [CallInit None, Message InitDone]) \<and>
   init (run web_audio initial [CallInit None, Message InitDone]) (Some 5) =
     (run web_audio initial [CallInit None, Message InitDone], Immediate) \<and>
   \<not> initialized (run web_audio initial [CallInit None]) \<and>
   initPromise (run web_audio initial [CallInit None]) = Some 0 \<and>
   init (run web_audio initial [CallInit None]) (Some 5) =
     (run web_audio initial [CallInit None], Follows 0) \<and>
   spawned (effects (run web_audio initial
     [CallInit None, CallInit (Some 5), Message (InitProgress 0 ''loading''), CallInit None,
      Message (InitError ''no model''), CallInit (Some 5)])) = 1 \<and>
   snd (init (run web_audio initial []) None) = Follows 0 \<and>
   snd (init (run web_audio initial ([] @ CallInit None # [Message (InitError ''no model'')]))
          (Some 5)) = Follows 0"
proof -
  let ?r = "run web_audio initial [CallInit None, Message InitDone]"
  let ?i = "run web_audio initial [CallInit None]"
  let ?es = "[CallInit None, CallInit (Some 5), Message (InitProgress 0 ''loading''),
              CallInit None, Message (InitError ''no model''), CallInit (Some 5)]"
  have h1: "initialized ?r" by (simp add: eval_defs)
  have h2: "\<not> initialized ?i \<and> initPromise ?i = Some 0" by (simp add: eval_defs)
  have h3: "CallInit (Some 5) \<in> set ?es" by simp
  have h4: "snd (init (run web_audio initial []) None) = Follows 0" by (simp add: eval_defs)
  have h5: "snd (init (run web_audio initial ([] @ CallInit None # [Message (InitError ''no model'')]))
          (Some 5)) = Follows 0" by (simp add: eval_defs)
  have c1: "init ?r (Some 5) = (?r, Immediate)"
    using init_idempotent_coalescing [of ?r "Some 5"] h1 by blast
  have c2: "init ?i (Some 5) = (?i, Follows 0)"
    using init_idempotent_coalescing [of ?i "Some 5" 0] h2 by blast
  have c3: "spawned (effects (run web_audio initial ?es)) = 1"
    using init_idempotent_coalescing [of _ "Some 5" _ web_audio ?es] h3 by blast
  show ?thesis using h1 h2 h4 h5 c1 c2 c3 by blast
qed

text \<open>
  C10. When the initialisation handler has processed \<^verbatim>\<open>init_done\<close> and the continuation of
  \<^verbatim>\<open>_init\<close> has not run yet, \<^verbatim>\<open>isReady\<close> is true and no audio context exists: the handler sets
  \<^verbatim>\<open>initialized\<close> and only queues the continuation that creates the context. In that state
  \<^verbatim>\<open>speakSentence\<close> returns 0 and changes nothing. The state is reached from a fresh manager by
  a call of \<^verbatim>\<open>init\<close> and the delivery of \<^verbatim>\<open>init_done\<close>; the context exists once the queued
  continuation has run.
\<close>

theorem ready_without_device:
  "isReady (fst (dispatch (fst (init initial cb)) InitDone)) \<and>
   audioCtx (fst (dispatch (fst (init initial cb)) InitDone)) = None \<and>
   snd (dispatch (fst (init initial cb)) InitDone) = Some (InitResume 0) \<and>
   speakSentence (fst (dispatch (fst (init initial cb)) InitDone)) text voiceId =
     Inr (fst (dispatch (fst (init initial cb)) InitDone), Returned (Val 0)) \<and>
   audioCtx (run_job pf (fst (dispatch (fst (init initial cb)) InitDone)) (InitResume 0)) =
     Some TTS_SAMPLE_RATE \<and>
   run pf initial [CallInit cb, Message InitDone] =
     run_job pf (fst (dispatch (fst (init initial cb)) InitDone)) (InitResume 0)"
  by (simp add: isReady_def dispatch_def init_def private_init_def initial_def init_onmessage_def
      is_pending_def settle_def speakSentence_def run_job_def init_resume_def run_def step_def
      on_message_def Let_def)

theorem ready_without_device_witness:
  "isReady (fst (dispatch (fst (init initial None)) InitDone)) \<and>
   audioCtx (fst (dispatch (fst (init initial None)) InitDone)) = None \<and>
   speakSentence (fst (dispatch (fst (init initial None)) InitDone)) ''Hello'' ''voiceA'' =
     Inr (fst (dispatch (fst (init initial None)) InitDone), Returned (Val 0)) \<and>
   audioCtx (run web_audio initial [CallInit None, Message InitDone]) = Some 24000"
  using ready_without_device [of None "''Hello''" "''voiceA''" web_audio]
  by (simp add: TTS_SAMPLE_RATE_def)

end
